theory Spec2Isabelle
  imports Main "HOL-Library.Word" "HOL-Library.AList"
begin

unbundle bit_operations_syntax

text \<open>
  The record store of the DWebNS console. The records of a name are kept on the ledger
  as a log of \<open>RecordChanged\<close> events; the page \<open>RecordsPage\<close> rebuilds the current
  records from the log (\<open>loadResolverData\<close>) and appends a change (\<open>updateRecord\<close>).
  Names and labels go to the ledger as 32-byte keys (\<open>checkAvailability\<close> in
  \<open>web3.ts\<close>, \<open>loadMyDomains\<close> in \<open>HomePage.tsx\<close>). The theory follows these functions
  and the library functions they call: \<open>toUtf8Bytes\<close> and the address coder of ethers,
  and the platform's \<open>TextDecoder\<close>.
\<close>

section \<open>Strings, bytes and hexadecimal text\<close>

text \<open>
  A JavaScript string is a sequence of 16-bit code units, a \<open>Uint8Array\<close> a sequence of
  bytes. String literals of the source are written with \<open>js\<close>.
\<close>

type_synonym byte = "8 word"
type_synonym jsstring = "16 word list"

definition js :: "string \<Rightarrow> jsstring" where
  "js s = map (\<lambda>c. of_nat (of_char c)) s"

text \<open>
  \<open>'0x' + Array.from(bytes).map(b => b.toString(16).padStart(2, '0')).join('')\<close>,
  the rendering used in \<open>checkAvailability\<close>, \<open>loadResolverData\<close> and \<open>updateRecord\<close>.
  It is also the form in which the ABI layer hands over \<open>bytes32\<close> and \<open>bytes\<close> event
  arguments.
\<close>

definition hexDigit :: "nat \<Rightarrow> 16 word" where
  "hexDigit d = (if d < 10 then of_nat (48 + d) else of_nat (87 + d))"

definition byteHex :: "byte \<Rightarrow> jsstring" where
  "byteHex b = [hexDigit (unat b div 16), hexDigit (unat b mod 16)]"

definition hexlify :: "byte list \<Rightarrow> jsstring" where
  "hexlify bs = js ''0x'' @ concat (map byteHex bs)"

text \<open>
  \<open>new Uint8Array(hex.match(/.{2}/g)?.map(byte => parseInt(byte, 16)) || [])\<close>:
  the text is cut into pairs of characters (an odd last character is left over), each
  pair is read in radix 16. \<open>parseInt\<close> stops at the first character that is no hex
  digit and yields \<open>NaN\<close> when the first one is none; a typed array stores \<open>NaN\<close> as 0.
  The only texts that reach this function are renderings of bytes (see \<open>hexlify\<close>)
  and the digits of an address, so the sign and white space prefixes of \<open>parseInt\<close>
  play no role.
\<close>

definition hexValue :: "16 word \<Rightarrow> nat option" where
  "hexValue c =
     (if 48 \<le> unat c \<and> unat c \<le> 57 then Some (unat c - 48)
      else if 97 \<le> unat c \<and> unat c \<le> 102 then Some (unat c - 87)
      else if 65 \<le> unat c \<and> unat c \<le> 70 then Some (unat c - 55)
      else None)"

definition parseInt16 :: "16 word \<Rightarrow> 16 word \<Rightarrow> byte" where
  "parseInt16 c1 c2 =
     (case hexValue c1 of
        None \<Rightarrow> 0
      | Some h \<Rightarrow> (case hexValue c2 of None \<Rightarrow> of_nat h | Some l \<Rightarrow> of_nat (16 * h + l)))"

fun hexToBytes :: "jsstring \<Rightarrow> byte list" where
  "hexToBytes (c1 # c2 # cs) = parseInt16 c1 c2 # hexToBytes cs"
| "hexToBytes cs = []"

text \<open>
  The decimal text of a natural number, as \<open>String(n)\<close> and a template literal write it,
  and the number that a text of decimal digits stands for, as \<open>parseInt(s, 10)\<close> reads
  it.
\<close>

fun decimal :: "nat \<Rightarrow> jsstring" where
  "decimal n = (if n < 10 then [of_nat (48 + n)] else decimal (n div 10) @ [of_nat (48 + n mod 10)])"

declare decimal.simps [simp del]

definition decimalValue :: "jsstring \<Rightarrow> nat" where
  "decimalValue s = foldl (\<lambda>acc c. 10 * acc + (unat c - 48)) 0 s"

section \<open>UTF-8\<close>

text \<open>
  \<open>toUtf8Bytes\<close> of the ethers library, which the repository imports. It walks the code
  units; \<open>c >> k\<close> is \<open>c div 2 ^ k\<close>, \<open>c & 0x3f\<close> is \<open>c mod 64\<close>, and \<open>x | 0x80\<close> adds
  the marker bits to a value below them. A high surrogate that is not followed by a
  low surrogate raises (\<open>None\<close>); a low surrogate on its own is written as three
  bytes like any other code unit from \<open>0x800\<close> up.
\<close>

definition utf8_two :: "nat \<Rightarrow> byte list" where
  "utf8_two c = [of_nat (c div 64 + 0xC0), of_nat (c mod 64 + 0x80)]"

definition utf8_three :: "nat \<Rightarrow> byte list" where
  "utf8_three c = [of_nat (c div 4096 + 0xE0), of_nat (c div 64 mod 64 + 0x80), of_nat (c mod 64 + 0x80)]"

definition utf8_four :: "nat \<Rightarrow> byte list" where
  "utf8_four p = [of_nat (p div 262144 + 0xF0), of_nat (p div 4096 mod 64 + 0x80),
                  of_nat (p div 64 mod 64 + 0x80), of_nat (p mod 64 + 0x80)]"

definition surrogatePair :: "nat \<Rightarrow> nat \<Rightarrow> nat" where
  "surrogatePair c c2 = 0x10000 + (c mod 1024) * 1024 + c2 mod 1024"

fun toUtf8Bytes :: "jsstring \<Rightarrow> byte list option" where
  "toUtf8Bytes [] = Some []"
| "toUtf8Bytes (c # cs) =
     (if unat c < 0x80 then map_option ((@) [of_nat (unat c)]) (toUtf8Bytes cs)
      else if unat c < 0x800 then map_option ((@) (utf8_two (unat c))) (toUtf8Bytes cs)
      else if unat c div 1024 = 0x36 then
        (case cs of
           [] \<Rightarrow> None
         | c2 # cs' \<Rightarrow>
             if unat c2 div 1024 = 0x37
             then map_option ((@) (utf8_four (surrogatePair (unat c) (unat c2)))) (toUtf8Bytes cs')
             else None)
      else map_option ((@) (utf8_three (unat c))) (toUtf8Bytes cs))"

text \<open>
  \<open>new TextDecoder().decode(bytes)\<close>: the UTF-8 decoder of the Encoding Standard in its
  default mode. It never raises: a malformed sequence yields U+FFFD and decoding
  goes on with the byte that broke the sequence. The state is the code point read so
  far, the number of continuation bytes still needed and the bounds for the next
  byte. A byte order mark at the start of the output is dropped, and the code points
  are returned as a string, those from \<open>0x10000\<close> up as surrogate pairs.
\<close>

function utf8_decoder :: "nat \<Rightarrow> nat \<Rightarrow> nat \<Rightarrow> nat \<Rightarrow> byte list \<Rightarrow> nat list" where
  "utf8_decoder cp needed lo hi [] = (if needed \<noteq> 0 then [0xFFFD] else [])"
| "utf8_decoder cp needed lo hi (b # bs) =
     (if needed = 0 then
        (if unat b \<le> 0x7F then unat b # utf8_decoder 0 0 0x80 0xBF bs
         else if 0xC2 \<le> unat b \<and> unat b \<le> 0xDF then utf8_decoder (unat b mod 32) 1 0x80 0xBF bs
         else if 0xE0 \<le> unat b \<and> unat b \<le> 0xEF then
           utf8_decoder (unat b mod 16) 2 (if unat b = 0xE0 then 0xA0 else 0x80)
             (if unat b = 0xED then 0x9F else 0xBF) bs
         else if 0xF0 \<le> unat b \<and> unat b \<le> 0xF4 then
           utf8_decoder (unat b mod 8) 3 (if unat b = 0xF0 then 0x90 else 0x80)
             (if unat b = 0xF4 then 0x8F else 0xBF) bs
         else 0xFFFD # utf8_decoder 0 0 0x80 0xBF bs)
      else if unat b < lo \<or> hi < unat b then 0xFFFD # utf8_decoder 0 0 0x80 0xBF (b # bs)
      else if needed = 1 then (cp * 64 + unat b mod 64) # utf8_decoder 0 0 0x80 0xBF bs
      else utf8_decoder (cp * 64 + unat b mod 64) (needed - 1) 0x80 0xBF bs)"
  by pat_completeness auto
termination
  by (relation "measure (\<lambda>(cp, needed, lo, hi, bs). 2 * length bs + (if needed = 0 then 0 else 1))")
    auto

definition utf8_decode :: "byte list \<Rightarrow> nat list" where
  "utf8_decode bs = utf8_decoder 0 0 0x80 0xBF bs"

definition dropBOM :: "nat list \<Rightarrow> nat list" where
  "dropBOM cps = (case cps of [] \<Rightarrow> [] | cp # rest \<Rightarrow> if cp = 0xFEFF then rest else cp # rest)"

definition codeUnits :: "nat \<Rightarrow> jsstring" where
  "codeUnits cp =
     (if cp < 0x10000 then [of_nat cp]
      else [of_nat (0xD800 + (cp - 0x10000) div 1024), of_nat (0xDC00 + (cp - 0x10000) mod 1024)])"

definition TextDecoder_decode :: "byte list \<Rightarrow> jsstring" where
  "TextDecoder_decode bs = concat (map codeUnits (dropBOM (utf8_decode bs)))"

text \<open>\<open>s.replace(/\0/g, '')\<close>: every NUL code unit is removed, wherever it stands.\<close>

definition removeNuls :: "jsstring \<Rightarrow> jsstring" where
  "removeNuls s = filter (\<lambda>c. c \<noteq> 0) s"

section \<open>Addresses\<close>

text \<open>
  The address coder of the ethers library (\<open>AbiCoder.defaultAbiCoder()\<close> with the type
  \<open>address\<close>) and what it rests on: Keccak-256 and the mixed-case checksum form of an
  address that \<open>getAddress\<close> returns.
\<close>

subsection \<open>Keccak-256\<close>

type_synonym lane = "64 word"

definition rotl64 :: "lane \<Rightarrow> nat \<Rightarrow> lane" where
  "rotl64 w n = push_bit n w OR drop_bit (64 - n) w"

definition keccak_RC :: "lane list" where
  "keccak_RC =
    [0x0000000000000001, 0x0000000000008082, 0x800000000000808A, 0x8000000080008000,
     0x000000000000808B, 0x0000000080000001, 0x8000000080008081, 0x8000000000008009,
     0x000000000000008A, 0x0000000000000088, 0x0000000080008009, 0x000000008000000A,
     0x000000008000808B, 0x800000000000008B, 0x8000000000008089, 0x8000000000008003,
     0x8000000000008002, 0x8000000000000080, 0x000000000000800A, 0x800000008000000A,
     0x8000000080008081, 0x8000000000008080, 0x0000000080000001, 0x8000000080008008]"

definition keccak_rot :: "nat list" where
  "keccak_rot =
    [0, 1, 62, 28, 27,  36, 44, 6, 55, 20,  3, 10, 43, 25, 39,
     41, 45, 15, 21, 8,  18, 2, 61, 56, 14]"

text \<open>The state is the list of its 25 lanes, lane \<open>(x, y)\<close> at index \<open>x + 5 * y\<close>.\<close>

definition theta :: "lane list \<Rightarrow> lane list" where
  "theta a =
     (let c = map (\<lambda>x. a ! x XOR a ! (x + 5) XOR a ! (x + 10) XOR a ! (x + 15) XOR a ! (x + 20)) [0..<5];
          d = map (\<lambda>x. c ! ((x + 4) mod 5) XOR rotl64 (c ! ((x + 1) mod 5)) 1) [0..<5]
      in map (\<lambda>i. a ! i XOR d ! (i mod 5)) [0..<25])"

definition rho_pi :: "lane list \<Rightarrow> lane list" where
  "rho_pi a =
     map (\<lambda>j. let X = j mod 5; Y = j div 5; x = (X + 3 * Y) mod 5
               in rotl64 (a ! (x + 5 * X)) (keccak_rot ! (x + 5 * X))) [0..<25]"

definition chi :: "lane list \<Rightarrow> lane list" where
  "chi b =
     map (\<lambda>i. let x = i mod 5; y = i div 5
               in b ! i XOR (NOT (b ! ((x + 1) mod 5 + 5 * y)) AND b ! ((x + 2) mod 5 + 5 * y)))
       [0..<25]"

definition iota :: "lane \<Rightarrow> lane list \<Rightarrow> lane list" where
  "iota rc a = (case a of [] \<Rightarrow> [] | l # ls \<Rightarrow> (l XOR rc) # ls)"

definition keccak_round :: "lane list \<Rightarrow> lane \<Rightarrow> lane list" where
  "keccak_round a rc = iota rc (chi (rho_pi (theta a)))"

definition keccak_f :: "lane list \<Rightarrow> lane list" where
  "keccak_f a = foldl keccak_round a keccak_RC"

definition laneOfBytes :: "byte list \<Rightarrow> lane" where
  "laneOfBytes bs = foldr (\<lambda>b acc. push_bit 8 acc OR ucast b) bs 0"

definition bytesOfLane :: "lane \<Rightarrow> byte list" where
  "bytesOfLane l = map (\<lambda>i. ucast (drop_bit (8 * i) l)) [0..<8]"

definition keccak_pad :: "byte list \<Rightarrow> byte list" where
  "keccak_pad m =
     (let k = 136 - length m mod 136
      in if k = 1 then m @ [0x81] else m @ [0x01] @ replicate (k - 2) 0 @ [0x80])"

definition xorBlock :: "lane list \<Rightarrow> byte list \<Rightarrow> lane list" where
  "xorBlock a block =
     map (\<lambda>i. if i < 17 then a ! i XOR laneOfBytes (take 8 (drop (8 * i) block)) else a ! i)
       [0..<25]"

fun absorb :: "nat \<Rightarrow> lane list \<Rightarrow> byte list \<Rightarrow> lane list" where
  "absorb 0 a m = a"
| "absorb (Suc n) a m = absorb n (keccak_f (xorBlock a (take 136 m))) (drop 136 m)"

definition keccak256 :: "byte list \<Rightarrow> byte list" where
  "keccak256 m =
     (let p = keccak_pad m
      in concat (map bytesOfLane (take 4 (absorb (length p div 136) (replicate 25 0) p))))"

subsection \<open>\<open>getAddress\<close>\<close>

text \<open>
  \<open>toLowerCase\<close> and \<open>toUpperCase\<close> as they act on ASCII; \<open>getChecksumAddress\<close> applies
  them to text that has matched \<open>/^(0x)?[0-9a-fA-F]{40}$/\<close> only.
\<close>

definition asciiLower :: "16 word \<Rightarrow> 16 word" where
  "asciiLower c = (if 65 \<le> unat c \<and> unat c \<le> 90 then c + 32 else c)"

definition asciiUpper :: "16 word \<Rightarrow> 16 word" where
  "asciiUpper c = (if 97 \<le> unat c \<and> unat c \<le> 122 then c - 32 else c)"

definition nibbles :: "byte list \<Rightarrow> nat list" where
  "nibbles bs = concat (map (\<lambda>b. [unat b div 16, unat b mod 16]) bs)"

text \<open>
  \<open>getChecksumAddress\<close>: the first 40 digits in lower case are hashed as ASCII bytes;
  digit \<open>i\<close> of them is put in upper case when nibble \<open>i\<close> of the hash is 8 or more.
  Digits after the first 40 stay in lower case.
\<close>

definition getChecksumAddress :: "jsstring \<Rightarrow> jsstring" where
  "getChecksumAddress address =
     (let chars = map asciiLower (drop 2 address);
          hashed = keccak256 (map ucast (take 40 chars))
      in js ''0x'' @ map2 (\<lambda>c n. if 8 \<le> n then asciiUpper c else c) chars (take 40 (nibbles hashed))
           @ drop 40 chars)"

datatype failure =
    InvalidSurrogatePair
  | InvalidAddress
  | BadAddressChecksum
  | BadIcapChecksum
  | BufferOverrun
  | ValueExceedsWidth
  | RejectedByLedger

definition isHexText :: "jsstring \<Rightarrow> bool" where
  "isHexText s = list_all (\<lambda>c. hexValue c \<noteq> None) s"

definition isMixedCase :: "jsstring \<Rightarrow> bool" where
  "isMixedCase s =
     (list_ex (\<lambda>c. 65 \<le> unat c \<and> unat c \<le> 70) s \<and> list_ex (\<lambda>c. 97 \<le> unat c \<and> unat c \<le> 102) s)"

definition isAlnum :: "16 word \<Rightarrow> bool" where
  "isAlnum c = ((48 \<le> unat c \<and> unat c \<le> 57) \<or> (65 \<le> unat c \<and> unat c \<le> 90) \<or> (97 \<le> unat c \<and> unat c \<le> 122))"

definition isIcap :: "jsstring \<Rightarrow> bool" where
  "isIcap s =
     (take 2 s = js ''XE'' \<and> (length s = 34 \<or> length s = 35)
      \<and> list_all (\<lambda>c. 48 \<le> unat c \<and> unat c \<le> 57) (take 2 (drop 2 s))
      \<and> list_all isAlnum (drop 4 s))"

text \<open>
  \<open>ibanChecksum\<close>: the text in upper case, its first four characters cut off and \<open>XE00\<close>
  put at the end, is written in decimal digits (a digit stays, the letters \<open>A\<close> to \<open>Z\<close>
  become 10 to 35); the number is reduced modulo 97, 15 digits at a time, and the
  checksum is 98 minus the remainder, in two digits.
\<close>

definition ibanLookup :: "16 word \<Rightarrow> jsstring" where
  "ibanLookup c = (if 48 \<le> unat c \<and> unat c \<le> 57 then [c] else decimal (unat c - 55))"

function ibanReduce :: "jsstring \<Rightarrow> jsstring" where
  "ibanReduce expanded =
     (if 15 \<le> length expanded
      then ibanReduce (decimal (decimalValue (take 15 expanded) mod 97) @ drop 15 expanded)
      else expanded)"
  by pat_completeness auto

termination
proof (relation "measure length")
  fix expanded :: jsstring
  assume long: "15 \<le> length expanded"
  define r where "r = decimalValue (take 15 expanded) mod 97"
  have "r < 97" by (simp add: r_def)
  then have "r div 10 < 10" by simp
  then have "length (decimal r) \<le> 2"
    by (simp add: decimal.simps [of r] decimal.simps [of "r div 10"])
  then show "(decimal (decimalValue (take 15 expanded) mod 97) @ drop 15 expanded, expanded) \<in> measure length"
    using long by (simp add: r_def)
qed simp

declare ibanReduce.simps [simp del]

definition ibanChecksum :: "jsstring \<Rightarrow> jsstring" where
  "ibanChecksum address =
     (let upper = map asciiUpper address;
          moved = drop 4 upper @ take 2 upper @ js ''00'';
          expanded = ibanReduce (concat (map ibanLookup moved));
          checksum = decimal (98 - decimalValue expanded mod 97)
      in replicate (2 - length checksum) 0x30 @ checksum)"

text \<open>
  \<open>fromBase36(value).toString(16)\<close>: the number that the text stands for in radix 36,
  digits before letters and the case of a letter playing no role, and its hex digits.
\<close>

definition fromBase36 :: "jsstring \<Rightarrow> nat" where
  "fromBase36 v =
     foldl (\<lambda>result c. result * 36 + (if unat c \<le> 57 then unat c - 48 else unat c - 87)) 0
       (map asciiLower v)"

fun toString16 :: "nat \<Rightarrow> jsstring" where
  "toString16 n = (if n < 16 then [hexDigit n] else toString16 (n div 16) @ [hexDigit (n mod 16)])"

declare toString16.simps [simp del]

text \<open>
  \<open>getAddress\<close>: 40 hex digits, with or without \<open>0x\<close>, are accepted; text that mixes
  upper and lower case digits must be its own checksum form. ICAP text, \<open>XE\<close> and two
  check digits before 30 or 31 digits in radix 36, is accepted when the check digits
  are right; its number is written in hex digits, with zeros in front up to 40 digits.
  The result is the checksum form of the digits. A number of 31 digits in radix 36 can
  need 41 hex digits; the result has 41 digits then.
\<close>

definition getAddress :: "jsstring \<Rightarrow> failure + jsstring" where
  "getAddress address =
     (if (length address = 40 \<and> isHexText address)
         \<or> (length address = 42 \<and> take 2 address = js ''0x'' \<and> isHexText (drop 2 address))
      then
        (let address' = (if take 2 address = js ''0x'' then address else js ''0x'' @ address);
             result = getChecksumAddress address'
         in if isMixedCase address' \<and> result \<noteq> address' then Inl BadAddressChecksum
            else Inr result)
      else if isIcap address
      then
        (if take 2 (drop 2 address) \<noteq> ibanChecksum address then Inl BadIcapChecksum
         else
           (let result = toString16 (fromBase36 (drop 4 address))
            in Inr (getChecksumAddress (js ''0x'' @ replicate (40 - length result) 0x30 @ result))))
      else Inl InvalidAddress)"

subsection \<open>The address coder\<close>

text \<open>
  \<open>abiCoder.encode(['address'], [value])\<close>: the result of \<open>getAddress\<close> is read as a
  number and written as one 32-byte word, as hex text. \<open>toBeArray\<close> gives the bytes of
  the number, the first of them not zero: they are the bytes of its hex digits without
  the zeros in front, one \<open>0\<close> put before an odd number of digits. \<open>writeValue\<close> puts zero
  bytes in front of them up to 32 bytes.
\<close>

definition toBeArray :: "jsstring \<Rightarrow> byte list" where
  "toBeArray digits =
     (let hex = dropWhile (\<lambda>c. c = 0x30) digits
      in hexToBytes (if odd (length hex) then 0x30 # hex else hex))"

definition writeValue :: "jsstring \<Rightarrow> failure + byte list" where
  "writeValue digits =
     (let bytes = toBeArray digits
      in if 32 < length bytes then Inl BufferOverrun
         else if length bytes = 32 then Inr bytes
         else Inr (replicate (32 - length bytes mod 32) 0 @ bytes))"

definition AbiCoder_encode_address :: "jsstring \<Rightarrow> failure + jsstring" where
  "AbiCoder_encode_address v =
     (case getAddress v of
        Inl f \<Rightarrow> Inl f
      | Inr a \<Rightarrow> (case writeValue (drop 2 a) of
                   Inl f \<Rightarrow> Inl f
                 | Inr word \<Rightarrow> Inr (hexlify word)))"

text \<open>
  \<open>abiCoder.decode(['address'], data)[0]\<close>: reads one 32-byte word; fewer than 32 bytes
  raise, and so does a word whose value does not fit 20 bytes. Bytes after the first
  word are not looked at.
\<close>

definition AbiCoder_decode_address :: "byte list \<Rightarrow> failure + jsstring" where
  "AbiCoder_decode_address bs =
     (if length bs < 32 then Inl BufferOverrun
      else if take 12 bs \<noteq> replicate 12 0 then Inl ValueExceedsWidth
      else Inr (getChecksumAddress (hexlify (take 20 (drop 12 bs)))))"

section \<open>Record types\<close>

text \<open>The constants of \<open>RecordTypes\<close>; a record type is a \<open>uint16\<close> on the ledger.\<close>

definition TYPE_A :: "16 word" where "TYPE_A = 1"
definition TYPE_TXT :: "16 word" where "TYPE_TXT = 16"
definition TYPE_ETH_ADDRESS :: "16 word" where "TYPE_ETH_ADDRESS = 65280"
definition TYPE_BTC_ADDRESS :: "16 word" where "TYPE_BTC_ADDRESS = 65281"
definition TYPE_SOL_ADDRESS :: "16 word" where "TYPE_SOL_ADDRESS = 65282"
definition TYPE_PUBKEY :: "16 word" where "TYPE_PUBKEY = 65344"
definition TYPE_DID :: "16 word" where "TYPE_DID = 65345"
definition TYPE_CONTENT_HASH :: "16 word" where "TYPE_CONTENT_HASH = 65408"
definition TYPE_IPFS_CID :: "16 word" where "TYPE_IPFS_CID = 65409"
definition TYPE_SWARM_HASH :: "16 word" where "TYPE_SWARM_HASH = 65410"
definition TYPE_ARWEAVE_ID :: "16 word" where "TYPE_ARWEAVE_ID = 65411"

definition isAddressType :: "16 word \<Rightarrow> bool" where
  "isAddressType recordType =
     (recordType = TYPE_ETH_ADDRESS \<or> recordType = TYPE_BTC_ADDRESS \<or> recordType = TYPE_SOL_ADDRESS)"

section \<open>Names and labels as 32-byte keys\<close>

text \<open>
  The conversion that \<open>checkAvailability\<close>, \<open>loadResolverData\<close> and \<open>updateRecord\<close>
  each write out (``Convert name to bytes32''):
  \<^verbatim>\<open>
  const nameBytes32 = new Uint8Array(32);
  const nameBytes = toUtf8Bytes(domainName);
  nameBytes32.set(nameBytes.slice(0, 32));
  \<close>
\<close>

definition bytes32 :: "byte list \<Rightarrow> byte list" where
  "bytes32 bs = take 32 bs @ replicate (32 - length (take 32 bs)) 0"

definition toBytes32 :: "jsstring \<Rightarrow> byte list option" where
  "toBytes32 s = map_option bytes32 (toUtf8Bytes s)"

definition toBytes32Hex :: "jsstring \<Rightarrow> jsstring option" where
  "toBytes32Hex s = map_option hexlify (toBytes32 s)"

text \<open>
  The way back, as \<open>loadMyDomains\<close> reads the names of a wallet:
  \<^verbatim>\<open>
  nameStr = new TextDecoder().decode(nameBytes).replace(/\0/g, '');
  \<close>
  where \<open>nameBytes\<close> are the bytes of the hex text of the event argument.
\<close>

definition decodeName :: "byte list \<Rightarrow> jsstring" where
  "decodeName nameBytes32 =
     removeNuls (TextDecoder_decode (hexToBytes (drop 2 (hexlify nameBytes32))))"

definition zeroHex :: jsstring where
  "zeroHex = js ''0x'' @ js (replicate 64 CHR ''0'')"

section \<open>Reading the records of a name: \<open>loadResolverData\<close>\<close>

text \<open>
  What \<open>queryFilter\<close> returns: a log that could not be parsed has no \<open>args\<close>, a parsed
  one has the arguments \<open>[name, label, recordType, data]\<close> of \<open>RecordChanged\<close>. The
  \<open>bytes32\<close> and \<open>bytes\<close> arguments arrive as hex text of their bytes; the model keeps
  the bytes and renders them where the source uses the text.
\<close>

record ChangeEvent =
  name :: "byte list"
  label :: "byte list"
  recordType :: "16 word"
  data :: "byte list"

datatype log = Log | EventLog ChangeEvent

record RecordData =
  rd_recordType :: "16 word"
  rd_label :: jsstring
  rd_data :: jsstring
  rd_decodedValue :: jsstring

text \<open>\<^verbatim>\<open>const recordKey = `${recordType}-${label}`;\<close>\<close>

definition recordKey :: "16 word \<Rightarrow> jsstring \<Rightarrow> jsstring" where
  "recordKey t l = decimal (unat t) @ js ''-'' @ l"

text \<open>
  The label of an event. Nothing in the \<open>try\<close> block can raise (the decoder does not),
  so its \<open>catch\<close> has no branch here.
\<close>

definition decodeLabel :: "byte list \<Rightarrow> jsstring" where
  "decodeLabel labelBytes32 =
     (let labelHex = hexlify labelBytes32
      in if labelHex \<noteq> [] \<and> labelHex \<noteq> zeroHex
         then removeNuls (TextDecoder_decode (hexToBytes (drop 2 labelHex)))
         else [])"

text \<open>
  The value of an event, by its type. For an address type a failure of the coder is
  caught and the hex text of the data is shown in its place.
\<close>

definition decodeValue :: "16 word \<Rightarrow> byte list \<Rightarrow> jsstring" where
  "decodeValue t dataBytes =
     (let dataHex = hexlify dataBytes
      in if dataHex \<noteq> [] \<and> dataHex \<noteq> js ''0x'' then
           (if t = TYPE_ETH_ADDRESS \<or> t = TYPE_BTC_ADDRESS \<or> t = TYPE_SOL_ADDRESS then
              (case AbiCoder_decode_address dataBytes of
                 Inr a \<Rightarrow> a
               | Inl err \<Rightarrow> dataHex)
            else TextDecoder_decode (hexToBytes (drop 2 dataHex)))
         else [])"

definition eventKey :: "ChangeEvent \<Rightarrow> jsstring" where
  "eventKey e = recordKey (recordType e) (decodeLabel (label e))"

definition eventRecord :: "ChangeEvent \<Rightarrow> RecordData" where
  "eventRecord e =
     \<lparr> rd_recordType = recordType e, rd_label = decodeLabel (label e),
       rd_data = hexlify (data e), rd_decodedValue = decodeValue (recordType e) (data e) \<rparr>"

text \<open>
  One turn of the loop over the events. \<open>recordMap\<close> is a JavaScript \<open>Map\<close>: \<open>set\<close>
  replaces the value of a key it has, in place, and appends a new key at the end.
\<close>

fun processEvent :: "(jsstring \<times> RecordData) list \<Rightarrow> log \<Rightarrow> (jsstring \<times> RecordData) list" where
  "processEvent recordMap Log = recordMap"
| "processEvent recordMap (EventLog e) = AList.update (eventKey e) (eventRecord e) recordMap"

definition recordMap :: "log list \<Rightarrow> (jsstring \<times> RecordData) list" where
  "recordMap events = foldl processEvent [] events"

text \<open>
  \<open>setRecords(Array.from(recordMap.values()))\<close>: what \<open>loadResolverData\<close> makes of the
  events that \<open>queryFilter\<close> returned for the name.
\<close>

definition loadResolverData :: "log list \<Rightarrow> RecordData list" where
  "loadResolverData events = map snd (recordMap events)"

text \<open>An event writes the entry of key \<open>k\<close> when it is parsed and \<open>k\<close> is its key.\<close>

definition writesKey :: "jsstring \<Rightarrow> log \<Rightarrow> bool" where
  "writesKey k l = (case l of Log \<Rightarrow> False | EventLog e \<Rightarrow> eventKey e = k)"

section \<open>Writing a record: \<open>updateRecord\<close>\<close>

text \<open>
  \<open>String.prototype.trim\<close> removes white space and line terminators from both ends.
\<close>

definition isWhiteSpace :: "16 word \<Rightarrow> bool" where
  "isWhiteSpace c =
     (c \<in> {0x09, 0x0A, 0x0B, 0x0C, 0x0D, 0x20, 0xA0, 0x1680, 0x2028, 0x2029, 0x202F, 0x205F,
            0x3000, 0xFEFF}
      \<or> (0x2000 \<le> unat c \<and> unat c \<le> 0x200A))"

definition trim :: "jsstring \<Rightarrow> jsstring" where
  "trim s = rev (dropWhile isWhiteSpace (rev (dropWhile isWhiteSpace s)))"

text \<open>
  What the component reads from its surroundings: the name in the route, whether a
  wallet is connected, whether the resolver contract could be set up, and whether the
  ledger takes a call. The ledger is a test double that records the calls of
  \<open>setRecord\<close> it receives.
\<close>

record setRecordCall =
  call_name :: jsstring
  call_recordType :: "16 word"
  call_label :: jsstring
  call_data :: jsstring

record page =
  domainName :: "jsstring option"
  walletClient :: bool
  resolverReady :: bool
  ledgerAccepts :: "setRecordCall \<Rightarrow> bool"

datatype outcome = Returned | is_Failed: Failed failure | Updated

text \<open>``Convert label to bytes32''\<close>

definition labelToHex :: "jsstring \<Rightarrow> jsstring option" where
  "labelToHex l =
     (if l = [] \<or> trim l = [] then Some zeroHex
      else toBytes32Hex l)"

text \<open>``Encode data based on record type''\<close>

definition encodeData :: "16 word \<Rightarrow> jsstring \<Rightarrow> failure + jsstring" where
  "encodeData t v =
     (if t = TYPE_ETH_ADDRESS \<or> t = TYPE_BTC_ADDRESS \<or> t = TYPE_SOL_ADDRESS
      then AbiCoder_encode_address v
      else (case toUtf8Bytes v of
              None \<Rightarrow> Inl InvalidSurrogatePair
            | Some bs \<Rightarrow> Inr (hexlify bs)))"

text \<open>
  \<open>updateRecord\<close>, with the calls the ledger has received so far. The guard at the top
  returns without a word; whatever is raised further down is caught and shown through
  \<open>setError\<close> (\<open>Failed\<close>). What the page does after a call went through (closing the
  editor, loading the records again) is left out.
\<close>

definition updateRecord ::
  "page \<Rightarrow> 16 word \<Rightarrow> jsstring \<Rightarrow> jsstring \<Rightarrow> setRecordCall list \<Rightarrow> outcome \<times> setRecordCall list" where
  "updateRecord pg t l v calls =
     (case domainName pg of
        None \<Rightarrow> (Returned, calls)
      | Some dn \<Rightarrow>
          if dn = [] \<or> v = [] \<or> \<not> walletClient pg then (Returned, calls)
          else if \<not> resolverReady pg then (Returned, calls)
          else
            (case toBytes32Hex dn of
               None \<Rightarrow> (Failed InvalidSurrogatePair, calls)
             | Some nameHex \<Rightarrow>
                 (case labelToHex l of
                    None \<Rightarrow> (Failed InvalidSurrogatePair, calls)
                  | Some labelHex \<Rightarrow>
                      (case encodeData t v of
                         Inl f \<Rightarrow> (Failed f, calls)
                       | Inr encodedData \<Rightarrow>
                           (let call = \<lparr> call_name = nameHex, call_recordType = t,
                                          call_label = labelHex, call_data = encodedData \<rparr>
                            in if ledgerAccepts pg call then (Updated, calls @ [call])
                               else (Failed RejectedByLedger, calls @ [call]))))))"

section \<open>Well-formed strings\<close>

text \<open>
  \<open>String.prototype.isWellFormed\<close>: every high surrogate is followed by a low one and
  no low surrogate stands alone. \<open>codePoints\<close> are the code points of a string as its
  iterator yields them.
\<close>

fun isWellFormed :: "jsstring \<Rightarrow> bool" where
  "isWellFormed [] = True"
| "isWellFormed (c # cs) =
     (if unat c div 1024 = 0x36
      then (case cs of [] \<Rightarrow> False | c2 # cs' \<Rightarrow> unat c2 div 1024 = 0x37 \<and> isWellFormed cs')
      else unat c div 1024 \<noteq> 0x37 \<and> isWellFormed cs)"

fun codePoints :: "jsstring \<Rightarrow> nat list" where
  "codePoints [] = []"
| "codePoints (c # cs) =
     (if unat c div 1024 = 0x36
      then (case cs of
              [] \<Rightarrow> [unat c]
            | c2 # cs' \<Rightarrow>
                if unat c2 div 1024 = 0x37 then surrogatePair (unat c) (unat c2) # codePoints cs'
                else unat c # codePoints cs)
      else unat c # codePoints cs)"

section \<open>Vocabulary of the statements\<close>

text \<open>A digit or one of the letters \<open>a\<close> to \<open>f\<close>.\<close>

definition isLowerHex :: "16 word \<Rightarrow> bool" where
  "isLowerHex c = ((48 \<le> unat c \<and> unat c \<le> 57) \<or> (97 \<le> unat c \<and> unat c \<le> 102))"

text \<open>
  A value encoded as \<open>updateRecord\<close> encodes it, and the bytes of the encoded text decoded
  as \<open>loadResolverData\<close> decodes the data of an event.
\<close>

definition addressRoundTrip :: "16 word \<Rightarrow> jsstring \<Rightarrow> failure + jsstring" where
  "addressRoundTrip t v =
     (case encodeData t v of
        Inl f \<Rightarrow> Inl f
      | Inr encodedData \<Rightarrow> Inr (decodeValue t (hexToBytes (drop 2 encodedData))))"

text \<open>The digits of a checksum form, from the digits in lower case.\<close>

definition checksumDigits :: "jsstring \<Rightarrow> jsstring" where
  "checksumDigits L =
     map2 (\<lambda>c n. if 8 \<le> n then asciiUpper c else c) L
       (take 40 (nibbles (keccak256 (map ucast (take 40 L)))))
     @ drop 40 L"

section \<open>Hexadecimal text and bytes\<close>

lemma unat_byte: "n < 256 \<Longrightarrow> unat (of_nat n :: byte) = n"
  by (simp add: unat_of_nat)

lemma unat_unit: "n < 65536 \<Longrightarrow> unat (of_nat n :: 16 word) = n"
  by (simp add: unat_of_nat)

lemma unat_byte_less: "unat (b :: byte) < 256"
  using unsigned_less [of b, where ?'a = nat] by simp

lemma unat_hexDigit: "d < 16 \<Longrightarrow> unat (hexDigit d) = (if d < 10 then 48 + d else 87 + d)"
  by (simp add: hexDigit_def unat_unit del: of_nat_add)

lemma hexValue_hexDigit: "d < 16 \<Longrightarrow> hexValue (hexDigit d) = Some d"
  by (simp add: hexValue_def unat_hexDigit)

lemma parseInt16_byteHex: "parseInt16 (hexDigit (unat b div 16)) (hexDigit (unat b mod 16)) = b"
proof -
  have "unat b div 16 < 16" using unat_byte_less [of b] by simp
  then show ?thesis
    by (simp add: parseInt16_def hexValue_hexDigit)
qed

lemma hexToBytes_concat: "hexToBytes (concat (map byteHex bs)) = bs"
  by (induction bs) (simp_all add: byteHex_def parseInt16_byteHex)

lemma hexToBytes_hexlify: "hexToBytes (drop 2 (hexlify bs)) = bs"
  by (simp add: hexlify_def js_def hexToBytes_concat)

lemma hexlify_inj: "hexlify a = hexlify b \<Longrightarrow> a = b"
  by (metis hexToBytes_hexlify)

section \<open>The decoder reads what the encoder writes\<close>

lemma decoder_lead2:
  "0xC2 \<le> unat b \<Longrightarrow> unat b \<le> 0xDF \<Longrightarrow>
   utf8_decoder cp 0 lo hi (b # bs) = utf8_decoder (unat b mod 32) 1 0x80 0xBF bs"
  by simp

lemma decoder_lead3:
  "0xE0 \<le> unat b \<Longrightarrow> unat b \<le> 0xEF \<Longrightarrow>
   utf8_decoder cp 0 lo hi (b # bs) =
     utf8_decoder (unat b mod 16) 2 (if unat b = 0xE0 then 0xA0 else 0x80)
       (if unat b = 0xED then 0x9F else 0xBF) bs"
  by simp

lemma decoder_lead4:
  "0xF0 \<le> unat b \<Longrightarrow> unat b \<le> 0xF4 \<Longrightarrow>
   utf8_decoder cp 0 lo hi (b # bs) =
     utf8_decoder (unat b mod 8) 3 (if unat b = 0xF0 then 0x90 else 0x80)
       (if unat b = 0xF4 then 0x8F else 0xBF) bs"
  by simp

lemma decoder_last:
  "lo \<le> unat b \<Longrightarrow> unat b \<le> hi \<Longrightarrow>
   utf8_decoder cp (Suc 0) lo hi (b # bs) = (cp * 64 + unat b mod 64) # utf8_decode bs"
  by (simp add: utf8_decode_def)

lemma decoder_more:
  "lo \<le> unat b \<Longrightarrow> unat b \<le> hi \<Longrightarrow>
   utf8_decoder cp (Suc (Suc k)) lo hi (b # bs) =
     utf8_decoder (cp * 64 + unat b mod 64) (Suc k) 0x80 0xBF bs"
  by simp

lemma mod32: "q < 32 \<Longrightarrow> (q + 192) mod 32 = (q::nat)"
  using mod_mult_self1 [of q 6 32] by simp
lemma mod64: "r < 64 \<Longrightarrow> (r + 128) mod 64 = (r::nat)"
  using mod_mult_self1 [of r 2 64] by simp
lemma mod16: "q < 16 \<Longrightarrow> (q + 224) mod 16 = (q::nat)"
  using mod_mult_self1 [of q 14 16] by simp
lemma mod8: "q < 8 \<Longrightarrow> (q + 240) mod 8 = (q::nat)"
  using mod_mult_self1 [of q 30 8] by simp

lemma decode_one:
  assumes "n < 0x80"
  shows "utf8_decode (of_nat n # rest) = n # utf8_decode rest"
  using assms by (simp add: utf8_decode_def unat_byte)

lemma decode_two:
  assumes "0x80 \<le> n" "n < 0x800"
  shows "utf8_decode (utf8_two n @ rest) = n # utf8_decode rest"
proof -
  define a where "a = n div 64"
  define c where "c = n mod 64"
  define b1 :: byte where "b1 = of_nat (a + 0xC0)"
  define b2 :: byte where "b2 = of_nat (c + 0x80)"
  have n: "n = a * 64 + c" and c: "c < 64" by (simp_all add: a_def c_def)
  have a: "2 \<le> a" "a < 32" using assms n c by linarith+
  have u1: "unat b1 = a + 0xC0" unfolding b1_def using a by (intro unat_byte) simp
  have u2: "unat b2 = c + 0x80" unfolding b2_def using c by (intro unat_byte) simp
  have "utf8_decode (utf8_two n @ rest) = utf8_decoder 0 0 0x80 0xBF (b1 # b2 # rest)"
    by (simp add: utf8_decode_def utf8_two_def b1_def b2_def a_def c_def)
  also have "\<dots> = utf8_decoder (unat b1 mod 32) 1 0x80 0xBF (b2 # rest)"
    using a by (intro decoder_lead2) (simp_all add: u1)
  also have "\<dots> = (unat b1 mod 32 * 64 + unat b2 mod 64) # utf8_decode rest"
    using c unfolding One_nat_def by (intro decoder_last) (simp_all add: u2)
  also have "unat b1 mod 32 * 64 + unat b2 mod 64 = n"
    using a c by (simp add: u1 u2 mod32 mod64 n)
  finally show ?thesis .
qed

lemma decode_three:
  assumes "0x800 \<le> n" "n < 0x10000" "n < 0xD800 \<or> 0xE000 \<le> n"
  shows "utf8_decode (utf8_three n @ rest) = n # utf8_decode rest"
proof -
  define a where "a = n div 4096"
  define b where "b = n div 64 mod 64"
  define c where "c = n mod 64"
  define b1 :: byte where "b1 = of_nat (a + 0xE0)"
  define b2 :: byte where "b2 = of_nat (b + 0x80)"
  define b3 :: byte where "b3 = of_nat (c + 0x80)"
  define m where "m = n div 64"
  have "m div 64 = a" by (simp add: m_def a_def div_mult2_eq [symmetric])
  moreover have "b = m mod 64" by (simp add: b_def m_def)
  ultimately have "m = a * 64 + b" using div_mult_mod_eq [of m 64] by simp
  moreover have "n = m * 64 + c" using div_mult_mod_eq [of n 64] by (simp add: m_def c_def)
  ultimately have n: "n = a * 4096 + b * 64 + c" by linarith
  have c: "c < 64" and b: "b < 64" by (simp_all add: b_def c_def)
  have a: "a < 16" using assms n by linarith
  have lo: "a = 0 \<Longrightarrow> 32 \<le> b" using assms n c by linarith
  have hi: "a = 13 \<Longrightarrow> b \<le> 31" using assms n c b by linarith
  have u1: "unat b1 = a + 0xE0" unfolding b1_def using a by (intro unat_byte) simp
  have u2: "unat b2 = b + 0x80" unfolding b2_def using b by (intro unat_byte) simp
  have u3: "unat b3 = c + 0x80" unfolding b3_def using c by (intro unat_byte) simp
  have "utf8_decode (utf8_three n @ rest) = utf8_decoder 0 0 0x80 0xBF (b1 # b2 # b3 # rest)"
    by (simp add: utf8_decode_def utf8_three_def b1_def b2_def b3_def a_def b_def c_def)
  also have "\<dots> = utf8_decoder (unat b1 mod 16) 2 (if unat b1 = 0xE0 then 0xA0 else 0x80)
       (if unat b1 = 0xED then 0x9F else 0xBF) (b2 # b3 # rest)"
    using a by (intro decoder_lead3) (simp_all add: u1)
  also have "\<dots> = utf8_decoder (unat b1 mod 16 * 64 + unat b2 mod 64) (Suc 0) 0x80 0xBF (b3 # rest)"
    using a b lo hi unfolding numeral_2_eq_2 by (intro decoder_more) (auto simp add: u1 u2)
  also have "\<dots> = ((unat b1 mod 16 * 64 + unat b2 mod 64) * 64 + unat b3 mod 64) # utf8_decode rest"
    using c by (intro decoder_last) (simp_all add: u3)
  also have "(unat b1 mod 16 * 64 + unat b2 mod 64) * 64 + unat b3 mod 64 = n"
    using a b c by (simp add: u1 u2 u3 mod16 mod64 n)
  finally show ?thesis .
qed

lemma decode_four:
  assumes "0x10000 \<le> n" "n < 0x110000"
  shows "utf8_decode (utf8_four n @ rest) = n # utf8_decode rest"
proof -
  define a where "a = n div 262144"
  define b where "b = n div 4096 mod 64"
  define c where "c = n div 64 mod 64"
  define d where "d = n mod 64"
  define b1 :: byte where "b1 = of_nat (a + 0xF0)"
  define b2 :: byte where "b2 = of_nat (b + 0x80)"
  define b3 :: byte where "b3 = of_nat (c + 0x80)"
  define b4 :: byte where "b4 = of_nat (d + 0x80)"
  define m where "m = n div 64"
  define k where "k = m div 64"
  have k: "k = n div 4096" by (simp add: k_def m_def div_mult2_eq [symmetric])
  have "k div 64 = a" by (simp add: k a_def div_mult2_eq [symmetric])
  moreover have "b = k mod 64" by (simp add: b_def k)
  ultimately have "k = a * 64 + b" using div_mult_mod_eq [of k 64] by simp
  moreover have "m = k * 64 + c" using div_mult_mod_eq [of m 64] by (simp add: k_def c_def m_def)
  moreover have "n = m * 64 + d" using div_mult_mod_eq [of n 64] by (simp add: m_def d_def)
  ultimately have n: "n = a * 262144 + b * 4096 + c * 64 + d" by linarith
  have d: "d < 64" and c: "c < 64" and b: "b < 64" by (simp_all add: b_def c_def d_def)
  have a: "a < 5" using assms n by linarith
  have lo: "a = 0 \<Longrightarrow> 16 \<le> b" using assms n c d by linarith
  have hi: "a = 4 \<Longrightarrow> b \<le> 15" using assms n c d b by linarith
  have u1: "unat b1 = a + 0xF0" unfolding b1_def using a by (intro unat_byte) simp
  have u2: "unat b2 = b + 0x80" unfolding b2_def using b by (intro unat_byte) simp
  have u3: "unat b3 = c + 0x80" unfolding b3_def using c by (intro unat_byte) simp
  have u4: "unat b4 = d + 0x80" unfolding b4_def using d by (intro unat_byte) simp
  have "utf8_decode (utf8_four n @ rest) = utf8_decoder 0 0 0x80 0xBF (b1 # b2 # b3 # b4 # rest)"
    by (simp add: utf8_decode_def utf8_four_def b1_def b2_def b3_def b4_def a_def b_def c_def d_def)
  also have "\<dots> = utf8_decoder (unat b1 mod 8) 3 (if unat b1 = 0xF0 then 0x90 else 0x80)
       (if unat b1 = 0xF4 then 0x8F else 0xBF) (b2 # b3 # b4 # rest)"
    using a by (intro decoder_lead4) (simp_all add: u1)
  also have "\<dots> = utf8_decoder (unat b1 mod 8 * 64 + unat b2 mod 64) (Suc (Suc 0)) 0x80 0xBF (b3 # b4 # rest)"
    using a b lo hi unfolding numeral_3_eq_3 by (intro decoder_more) (auto simp add: u1 u2)
  also have "\<dots> = utf8_decoder ((unat b1 mod 8 * 64 + unat b2 mod 64) * 64 + unat b3 mod 64) (Suc 0) 0x80 0xBF (b4 # rest)"
    using c by (intro decoder_more) (simp_all add: u3)
  also have "\<dots> = (((unat b1 mod 8 * 64 + unat b2 mod 64) * 64 + unat b3 mod 64) * 64 + unat b4 mod 64) # utf8_decode rest"
    using d by (intro decoder_last) (simp_all add: u4)
  also have "((unat b1 mod 8 * 64 + unat b2 mod 64) * 64 + unat b3 mod 64) * 64 + unat b4 mod 64 = n"
    using a b c d by (simp add: u1 u2 u3 u4 mod8 mod64 n)
  finally show ?thesis .
qed

lemma unat_unit_less: "unat (c :: 16 word) < 65536"
  using unsigned_less [of c, where ?'a = nat] by simp

lemma surrogate_range: "(n div 1024 = 54) = (55296 \<le> n \<and> n < (56320::nat))"
  by arith

lemma low_surrogate_range: "(n div 1024 = 55) = (56320 \<le> n \<and> n < (57344::nat))"
  by arith

lemma surrogatePair_range:
  "0x10000 \<le> surrogatePair a b" "surrogatePair a b < 0x110000"
proof -
  have "a mod 1024 < 1024" "b mod 1024 < 1024" by simp_all
  then show "0x10000 \<le> surrogatePair a b" "surrogatePair a b < 0x110000"
    unfolding surrogatePair_def by linarith+
qed

lemma codeUnits_surrogatePair:
  assumes "unat c div 1024 = 0x36" "unat c2 div 1024 = 0x37"
  shows "codeUnits (surrogatePair (unat c) (unat c2)) = [c, c2]"
proof -
  define h where "h = unat c mod 1024"
  define l where "l = unat c2 mod 1024"
  have h: "h < 1024" and l: "l < 1024" by (simp_all add: h_def l_def)
  have c: "unat c = 54 * 1024 + h" using assms(1) div_mult_mod_eq [of "unat c" 1024] by (simp add: h_def)
  have c2: "unat c2 = 55 * 1024 + l" using assms(2) div_mult_mod_eq [of "unat c2" 1024] by (simp add: l_def)
  have p: "surrogatePair (unat c) (unat c2) = 0x10000 + h * 1024 + l"
    by (simp add: surrogatePair_def h_def l_def)
  have d: "(h * 1024 + l) div 1024 = h" "(h * 1024 + l) mod 1024 = l" using l by simp_all
  have "codeUnits (0x10000 + h * 1024 + l) = [of_nat (0xD800 + h), of_nat (0xDC00 + l)]"
    using d by (simp add: codeUnits_def add.assoc del: of_nat_add)
  moreover have "0xD800 + h = unat c" "0xDC00 + l = unat c2" using c c2 by simp_all
  ultimately show ?thesis by (simp add: p del: of_nat_add)
qed

lemma toUtf8Bytes_decode:
  "isWellFormed s \<Longrightarrow>
   \<exists>bs. toUtf8Bytes s = Some bs \<and> (\<forall>rest. utf8_decode (bs @ rest) = codePoints s @ utf8_decode rest)"
proof (induction s rule: isWellFormed.induct)
  case 1
  then show ?case by simp
next
  case (2 c cs)
  show ?case
  proof (cases "unat c div 1024 = 0x36")
    case True
    with "2.prems" obtain c2 cs' where cs: "cs = c2 # cs'" and low: "unat c2 div 1024 = 0x37"
      and wf: "isWellFormed cs'"
      by (auto split: list.splits)
    from "2.IH"(1) [OF True cs] wf obtain bs' where
      bs': "toUtf8Bytes cs' = Some bs'" "\<And>rest. utf8_decode (bs' @ rest) = codePoints cs' @ utf8_decode rest"
      by blast
    have big: "\<not> unat c < 0x80" "\<not> unat c < 0x800" using True by (simp_all add: surrogate_range)
    have "toUtf8Bytes (c # cs) = Some (utf8_four (surrogatePair (unat c) (unat c2)) @ bs')"
      using True low big bs'(1) by (simp add: cs)
    moreover have "utf8_decode ((utf8_four (surrogatePair (unat c) (unat c2)) @ bs') @ rest)
        = codePoints (c # cs) @ utf8_decode rest" for rest
      using decode_four [OF surrogatePair_range, of "unat c" "unat c2" "bs' @ rest"] bs'(2) True low
      by (simp add: cs)
    ultimately show ?thesis by blast
  next
    case False
    with "2.prems" have nolow: "unat c div 1024 \<noteq> 0x37" and wf: "isWellFormed cs" by auto
    from "2.IH"(2) [OF False] wf obtain bs' where
      bs': "toUtf8Bytes cs = Some bs'" "\<And>rest. utf8_decode (bs' @ rest) = codePoints cs @ utf8_decode rest"
      by blast
    have cp: "codePoints (c # cs) = unat c # codePoints cs" using False by simp
    consider (a) "unat c < 0x80" | (b) "0x80 \<le> unat c" "unat c < 0x800" | (c) "0x800 \<le> unat c"
      by linarith
    then show ?thesis
    proof cases
      case a
      then have "toUtf8Bytes (c # cs) = Some ([of_nat (unat c)] @ bs')" using bs'(1) by simp
      moreover have "utf8_decode (([of_nat (unat c)] @ bs') @ rest) = codePoints (c # cs) @ utf8_decode rest" for rest
        using decode_one [OF a, of "bs' @ rest"] bs'(2) by (simp add: cp del: codePoints.simps)
      ultimately show ?thesis by blast
    next
      case b
      then have "toUtf8Bytes (c # cs) = Some (utf8_two (unat c) @ bs')" using bs'(1) by simp
      moreover have "utf8_decode ((utf8_two (unat c) @ bs') @ rest) = codePoints (c # cs) @ utf8_decode rest" for rest
        using decode_two [OF b, of "bs' @ rest"] bs'(2) by (simp add: cp del: codePoints.simps)
      ultimately show ?thesis by blast
    next
      case c
      have r: "unat c < 0xD800 \<or> 0xE000 \<le> unat c"
        using False nolow by (simp add: surrogate_range low_surrogate_range) linarith
      from c have "toUtf8Bytes (c # cs) = Some (utf8_three (unat c) @ bs')" using bs'(1) False by simp
      moreover have "utf8_decode ((utf8_three (unat c) @ bs') @ rest) = codePoints (c # cs) @ utf8_decode rest" for rest
        using decode_three [OF c _ r, of "bs' @ rest"] unat_unit_less [of c] bs'(2) by (simp add: cp del: codePoints.simps)
      ultimately show ?thesis by blast
    qed
  qed
qed

lemma codeUnits_codePoints: "isWellFormed s \<Longrightarrow> concat (map codeUnits (codePoints s)) = s"
proof (induction s rule: isWellFormed.induct)
  case 1
  then show ?case by simp
next
  case (2 c cs)
  show ?case
  proof (cases "unat c div 1024 = 0x36")
    case True
    with "2.prems" obtain c2 cs' where cs: "cs = c2 # cs'" and low: "unat c2 div 1024 = 0x37"
      and wf: "isWellFormed cs'"
      by (auto split: list.splits)
    from "2.IH"(1) [OF True cs] wf have "concat (map codeUnits (codePoints cs')) = cs'" by blast
    then show ?thesis using True low by (simp add: cs codeUnits_surrogatePair)
  next
    case False
    with "2.prems" have wf: "isWellFormed cs" by auto
    from "2.IH"(2) [OF False] wf have "concat (map codeUnits (codePoints cs)) = cs" by blast
    moreover have "codeUnits (unat c) = [c]" using unat_unit_less [of c] by (simp add: codeUnits_def)
    ultimately show ?thesis using False by simp
  qed
qed

section \<open>The fold over the events\<close>

lemma map_of_processEvent_same:
  "map_of (processEvent m (EventLog e)) (eventKey e) = Some (eventRecord e)"
  by (simp add: update_conv')

lemma map_of_processEvent_other:
  "\<not> writesKey k l \<Longrightarrow> map_of (processEvent m l) k = map_of m k"
  by (cases l) (simp_all add: writesKey_def update_conv')

lemma map_of_foldl_processEvent_other:
  "\<not> list_ex (writesKey k) ls \<Longrightarrow> map_of (foldl processEvent m ls) k = map_of m k"
  by (induction ls arbitrary: m) (simp_all add: map_of_processEvent_other)

lemma recordMap_last_write:
  assumes "\<not> list_ex (writesKey (eventKey e)) later"
  shows "map_of (recordMap (earlier @ EventLog e # later)) (eventKey e) = Some (eventRecord e)"
proof -
  have "recordMap (earlier @ EventLog e # later)
      = foldl processEvent (processEvent (recordMap earlier) (EventLog e)) later"
    by (simp add: recordMap_def)
  then show ?thesis
    using map_of_foldl_processEvent_other [OF assms] map_of_processEvent_same by simp
qed

section \<open>Decoding values\<close>

lemma hexlify_Nil: "hexlify [] = js ''0x''"
  by (simp add: hexlify_def)

lemma hexlify_eq_0x: "(hexlify bs = js ''0x'') = (bs = [])"
  using hexlify_inj [of bs "[]"] by (auto simp add: hexlify_Nil)

lemma hexlify_not_Nil: "hexlify bs \<noteq> []"
  by (simp add: hexlify_def js_def)

lemma decodeValue_empty: "decodeValue t [] = []"
  by (simp add: decodeValue_def hexlify_Nil)

lemma TextDecoder_decode_Nil: "TextDecoder_decode [] = []"
  by (simp add: TextDecoder_decode_def utf8_decode_def dropBOM_def)

lemma decodeValue_text: "\<not> isAddressType t \<Longrightarrow> decodeValue t bs = TextDecoder_decode bs"
  by (cases "bs = []")
    (simp_all add: decodeValue_def isAddressType_def hexlify_eq_0x hexlify_not_Nil
      hexToBytes_hexlify TextDecoder_decode_Nil Let_def)

lemma decodeValue_address:
  "isAddressType t \<Longrightarrow> bs \<noteq> [] \<Longrightarrow>
   decodeValue t bs = (case AbiCoder_decode_address bs of Inr a \<Rightarrow> a | Inl err \<Rightarrow> hexlify bs)"
  by (auto simp add: decodeValue_def isAddressType_def hexlify_eq_0x hexlify_not_Nil Let_def)

section \<open>Padded keys\<close>

lemma utf8_decode_Nil: "utf8_decode [] = []"
  by (simp add: utf8_decode_def)

lemma utf8_decode_zeros: "utf8_decode (replicate k 0 @ rest) = replicate k 0 @ utf8_decode rest"
  using decode_one [of 0] by (induction k) simp_all

lemma codeUnits_zeros: "concat (replicate k (codeUnits 0)) = replicate k 0"
  by (induction k) (simp_all add: codeUnits_def)

lemma dropBOM_codePoints:
  assumes "s = [] \<or> hd s \<noteq> 0xFEFF"
  shows "dropBOM (codePoints s @ replicate k 0) = codePoints s @ replicate k 0"
proof (cases s)
  case Nil
  then show ?thesis by (cases k) (simp_all add: dropBOM_def)
next
  case (Cons c cs)
  with assms have "c \<noteq> 0xFEFF" by simp
  have "unat c \<noteq> 0xFEFF"
  proof
    assume "unat c = 0xFEFF"
    then have "of_nat (unat c) = (of_nat 0xFEFF :: 16 word)" by (rule arg_cong)
    with \<open>c \<noteq> 0xFEFF\<close> show False by simp
  qed
  moreover have "surrogatePair a b \<noteq> 0xFEFF" for a b
    using surrogatePair_range(1) [of a b] by simp
  ultimately show ?thesis
    by (simp add: Cons dropBOM_def split: list.splits)
qed

lemma TextDecoder_toUtf8Bytes:
  assumes "isWellFormed s" "toUtf8Bytes s = Some bs" "s = [] \<or> hd s \<noteq> 0xFEFF"
  shows "TextDecoder_decode (bs @ replicate k 0) = s @ replicate k 0"
proof -
  from toUtf8Bytes_decode [OF assms(1)] assms(2)
  have "utf8_decode (bs @ replicate k 0) = codePoints s @ utf8_decode (replicate k 0)" by auto
  then have "utf8_decode (bs @ replicate k 0) = codePoints s @ replicate k 0"
    using utf8_decode_zeros [of k "[]"] by (simp add: utf8_decode_Nil)
  then show ?thesis
    by (simp add: TextDecoder_decode_def dropBOM_codePoints [OF assms(3)]
        codeUnits_codePoints [OF assms(1)] codeUnits_zeros)
qed

lemma removeNuls_padded: "0 \<notin> set s \<Longrightarrow> removeNuls (s @ replicate k 0) = s"
  by (induction s) (simp_all add: removeNuls_def)

lemma decodeName_bytes: "decodeName bs = removeNuls (TextDecoder_decode bs)"
  by (simp add: decodeName_def hexToBytes_hexlify)

lemma bytes32_short: "length bs \<le> 32 \<Longrightarrow> bytes32 bs = bs @ replicate (32 - length bs) 0"
  by (simp add: bytes32_def)

lemma utf8_decode_ascii: "unat b \<le> 0x7F \<Longrightarrow> utf8_decode (b # bs) = unat b # utf8_decode bs"
  by (simp add: utf8_decode_def)

lemma utf8_decode_replicate: "utf8_decode (replicate k 0) = replicate k 0"
  using utf8_decode_zeros [of k "[]"] by (simp add: utf8_decode_Nil)

section \<open>Record keys\<close>

lemma decimal_digits: "c \<in> set (decimal n) \<Longrightarrow> 48 \<le> unat c \<and> unat c \<le> 57"
proof (induction n arbitrary: c rule: decimal.induct)
  case (1 n)
  show ?case
  proof (cases "n < 10")
    case True
    with "1.prems" have "c = of_nat (48 + n)" by (simp add: decimal.simps [of n] del: of_nat_add)
    moreover have "unat (of_nat (48 + n) :: 16 word) = 48 + n" using True by (intro unat_unit) simp
    ultimately show ?thesis using True by simp
  next
    case False
    have "unat (of_nat (48 + n mod 10) :: 16 word) = 48 + n mod 10"
      by (intro unat_unit) (simp add: less_trans [OF mod_less_divisor [of 10 n]] )
    then show ?thesis
      using "1.prems" "1.IH" [OF False, of c] False
      by (auto simp add: decimal.simps [of n] simp del: of_nat_add)
  qed
qed

lemma decimalValue_decimal: "decimalValue (decimal n) = n"
proof (induction n rule: decimal.induct)
  case (1 n)
  show ?case
  proof (cases "n < 10")
    case True
    moreover have "unat (of_nat (48 + n) :: 16 word) = 48 + n" using True by (intro unat_unit) simp
    ultimately show ?thesis by (simp add: decimal.simps [of n] decimalValue_def del: of_nat_add)
  next
    case False
    have u: "unat (of_nat (48 + n mod 10) :: 16 word) = 48 + n mod 10"
      by (intro unat_unit) (simp add: less_trans [OF mod_less_divisor [of 10 n]] )
    have "decimalValue (decimal n) = 10 * decimalValue (decimal (n div 10)) + n mod 10"
      using False u by (simp add: decimal.simps [of n] decimalValue_def del: of_nat_add)
    then show ?thesis using "1.IH" [OF False] by simp
  qed
qed

lemma recordKey_inj:
  assumes "recordKey t l = recordKey t' l'"
  shows "t = t' \<and> l = l'"
proof -
  have no: "(45 :: 16 word) \<notin> set (decimal n)" for n
    using decimal_digits [of 45 n] by auto
  have tw: "takeWhile (\<lambda>c. c \<noteq> 45) (decimal n @ 45 # r) = decimal n" for n r
  proof -
    have "takeWhile (\<lambda>c. c \<noteq> 45) (decimal n @ 45 # r)
        = decimal n @ takeWhile (\<lambda>c. c \<noteq> 45) (45 # r)"
      using no [of n] by (intro takeWhile_append2) auto
    then show ?thesis by simp
  qed
  have dw: "dropWhile (\<lambda>c. c \<noteq> 45) (decimal n @ 45 # r) = 45 # r" for n r
  proof -
    have "dropWhile (\<lambda>c. c \<noteq> 45) (decimal n @ 45 # r) = dropWhile (\<lambda>c. c \<noteq> 45) (45 # r)"
      using no [of n] by (intro dropWhile_append2) auto
    then show ?thesis by simp
  qed
  from assms have eq: "decimal (unat t) @ 45 # l = decimal (unat t') @ 45 # l'"
    by (simp add: recordKey_def js_def)
  from arg_cong [OF eq, of "takeWhile (\<lambda>c. c \<noteq> 45)"] have "decimal (unat t) = decimal (unat t')"
    by (simp only: tw)
  then have "unat t = unat t'" by (metis decimalValue_decimal)
  then have "t = t'" by (rule unsigned_word_eqI)
  moreover from arg_cong [OF eq, of "dropWhile (\<lambda>c. c \<noteq> 45)"] have "l = l'"
    by (simp only: dw) simp
  ultimately show ?thesis by simp
qed

lemma eventKey_eq:
  "(eventKey e1 = eventKey e2)
     = (recordType e1 = recordType e2 \<and> decodeLabel (label e1) = decodeLabel (label e2))"
  using recordKey_inj by (auto simp add: eventKey_def)

section \<open>The zero label\<close>

lemma concat_replicate_pair: "concat (replicate n [a, a]) = replicate (2 * n) a"
  by (induction n) simp_all

lemma js_replicate: "js (replicate n c) = replicate n (of_nat (of_char c))"
  by (simp add: js_def)

lemma hexlify_zero: "hexlify (replicate 32 0) = zeroHex"
  by (simp add: hexlify_def zeroHex_def byteHex_def hexDigit_def concat_replicate_pair js_replicate)

lemma hexlify_eq_zeroHex: "(hexlify bs = zeroHex) = (bs = replicate 32 0)"
  using hexlify_inj [of bs "replicate 32 0"] by (auto simp add: hexlify_zero)

lemma removeNuls_zeros: "removeNuls (replicate k 0) = []"
  by (simp add: removeNuls_def)

lemma TextDecoder_decode_zeros: "TextDecoder_decode (replicate k 0) = replicate k 0"
  using TextDecoder_toUtf8Bytes [of "[]" "[]" k] by simp

lemma decodeLabel_bytes: "decodeLabel bs = removeNuls (TextDecoder_decode bs)"
  by (simp add: decodeLabel_def Let_def hexlify_eq_zeroHex hexlify_not_Nil hexToBytes_hexlify
      TextDecoder_decode_zeros removeNuls_zeros)

lemma TextDecoder_text:
  assumes "isWellFormed s" "toUtf8Bytes s = Some bs" "s = [] \<or> hd s \<noteq> 0xFEFF"
  shows "TextDecoder_decode bs = s"
  using TextDecoder_toUtf8Bytes [OF assms, of 0] by simp

lemma toBytes32Hex_eq: "(toBytes32Hex s = toBytes32Hex t) = (toBytes32 s = toBytes32 t)"
  using hexlify_inj by (cases "toBytes32 s"; cases "toBytes32 t") (auto simp add: toBytes32Hex_def)

section \<open>Labels\<close>

lemma trim_empty: "(trim l = []) = list_all isWhiteSpace l"
proof -
  have "(dropWhile isWhiteSpace (rev (dropWhile isWhiteSpace l)) = [])
      = (\<forall>x \<in> set (dropWhile isWhiteSpace l). isWhiteSpace x)"
    by simp
  also have "\<dots> = (dropWhile isWhiteSpace l = [])"
  proof (cases "dropWhile isWhiteSpace l = []")
    case True
    then show ?thesis by (simp del: dropWhile_eq_Nil_conv)
  next
    case False
    then have "\<not> isWhiteSpace (hd (dropWhile isWhiteSpace l))" by (rule hd_dropWhile)
    moreover have "hd (dropWhile isWhiteSpace l) \<in> set (dropWhile isWhiteSpace l)"
      using False by simp
    ultimately show ?thesis using False by blast
  qed
  also have "\<dots> = list_all isWhiteSpace l"
    by (simp add: dropWhile_eq_Nil_conv list_all_iff)
  finally show ?thesis by (simp add: trim_def)
qed

lemma byte_nonzero: "0 < n \<Longrightarrow> n < 256 \<Longrightarrow> (of_nat n :: byte) \<noteq> 0"
  using unat_byte [of n] by (metis less_numeral_extra(3) unat_0)

lemma toUtf8Bytes_zero: "toUtf8Bytes (0 # cs) = map_option ((#) 0) (toUtf8Bytes cs)"
  by (cases "toUtf8Bytes cs") simp_all

lemma toUtf8Bytes_first_byte:
  assumes "toUtf8Bytes (c # cs) = Some bs" and "c \<noteq> 0"
  shows "bs \<noteq> [] \<and> hd bs \<noteq> 0"
proof -
  have n: "0 < unat c" using assms(2) by (simp add: unat_gt_0)
  have lt: "unat c < 65536" by (rule unat_unit_less)
  consider (a) "unat c < 0x80" | (b) "0x80 \<le> unat c" "unat c < 0x800"
    | (c) "0x800 \<le> unat c" "unat c div 1024 = 0x36" | (d) "0x800 \<le> unat c" "unat c div 1024 \<noteq> 0x36"
    by linarith
  then show ?thesis
  proof cases
    case a
    with assms(1) obtain r where "bs = of_nat (unat c) # r" by auto
    then show ?thesis using byte_nonzero [OF n] a by simp
  next
    case b
    with assms(1) obtain r where "bs = utf8_two (unat c) @ r" by auto
    moreover have "(of_nat (unat c div 64 + 0xC0) :: byte) \<noteq> 0"
      using b by (intro byte_nonzero) simp_all
    ultimately show ?thesis by (simp add: utf8_two_def del: of_nat_add)
  next
    case c
    with assms(1) obtain r and c2 :: "16 word"
      where "bs = utf8_four (surrogatePair (unat c) (unat c2)) @ r"
      by (auto split: list.splits if_splits)
    moreover have "(of_nat (surrogatePair (unat c) (unat c2) div 262144 + 0xF0) :: byte) \<noteq> 0"
      using surrogatePair_range [of "unat c" "unat c2"] by (intro byte_nonzero) simp_all
    ultimately show ?thesis by (simp add: utf8_four_def del: of_nat_add)
  next
    case d
    with assms(1) obtain r where "bs = utf8_three (unat c) @ r" by auto
    moreover have "(of_nat (unat c div 4096 + 0xE0) :: byte) \<noteq> 0"
      using lt by (intro byte_nonzero) simp_all
    ultimately show ?thesis by (simp add: utf8_three_def del: of_nat_add)
  qed
qed

lemma toUtf8Bytes_leading_zeros:
  "toUtf8Bytes l = Some bs \<Longrightarrow> (set (take n bs) \<subseteq> {0}) = (set (take n l) \<subseteq> {0})"
proof (induction l arbitrary: n bs)
  case Nil
  then show ?case by simp
next
  case (Cons c cs)
  show ?case
  proof (cases n)
    case 0
    then show ?thesis by simp
  next
    case (Suc m)
    show ?thesis
    proof (cases "c = 0")
      case True
      with Cons.prems obtain r where r: "toUtf8Bytes cs = Some r" "bs = 0 # r"
        by (auto simp add: toUtf8Bytes_zero)
      then show ?thesis using Cons.IH [OF r(1), of m] True Suc by simp
    next
      case False
      from toUtf8Bytes_first_byte [OF Cons.prems False] obtain b r where "bs = b # r" "b \<noteq> 0"
        by (cases bs) auto
      then show ?thesis using False Suc by simp
    qed
  qed
qed

lemma bytes32_zero: "(bytes32 bs = replicate 32 0) = (set (take 32 bs) \<subseteq> {0})"
proof
  assume "bytes32 bs = replicate 32 0"
  then have "set (bytes32 bs) \<subseteq> {0}" by simp
  then show "set (take 32 bs) \<subseteq> {0}" by (simp add: bytes32_def)
next
  assume a: "set (take 32 bs) \<subseteq> {0}"
  have "length (bytes32 bs) = 32" by (simp add: bytes32_def)
  moreover have "\<forall>y \<in> set (bytes32 bs). y = 0" using a by (auto simp add: bytes32_def)
  ultimately show "bytes32 bs = replicate 32 0" by (metis replicate_length_same)
qed

section \<open>The checksum form of an address\<close>

lemma length_theta: "length (theta a) = 25"
  by (simp add: theta_def Let_def)

lemma length_rho_pi: "length (rho_pi a) = 25"
  by (simp add: rho_pi_def)

lemma length_chi: "length (chi a) = 25"
  by (simp add: chi_def)

lemma length_iota: "length (iota rc a) = length a"
  by (cases a) (simp_all add: iota_def)

lemma length_keccak_round: "length (keccak_round a rc) = 25"
  by (simp add: keccak_round_def length_iota length_chi)

lemma length_foldl_round:
  "length (foldl keccak_round a rcs) = (if rcs = [] then length a else 25)"
  by (induction rcs arbitrary: a) (simp_all add: length_keccak_round)

lemma length_keccak_f: "length (keccak_f a) = 25"
proof -
  have "keccak_RC \<noteq> []" by (simp add: keccak_RC_def)
  then show ?thesis unfolding keccak_f_def by (simp add: length_foldl_round)
qed

lemma length_absorb: "length a = 25 \<Longrightarrow> length (absorb n a m) = 25"
  by (induction n arbitrary: a m) (simp_all add: length_keccak_f)

lemma length_concat_bytesOfLane: "length (concat (map bytesOfLane ls)) = 8 * length ls"
  by (induction ls) (simp_all add: bytesOfLane_def)

lemma length_keccak256: "length (keccak256 m) = 32"
  by (simp add: keccak256_def Let_def length_concat_bytesOfLane length_absorb)

lemma length_nibbles: "length (nibbles bs) = 2 * length bs"
  by (induction bs) (simp_all add: nibbles_def)

lemma unat_asciiLower:
  "unat (asciiLower c) = (if 65 \<le> unat c \<and> unat c \<le> 90 then unat c + 32 else unat c)"
proof (cases "65 \<le> unat c \<and> unat c \<le> 90")
  case True
  then have "unat c + unat (32 :: 16 word) < 2 ^ LENGTH(16)" by simp
  then have "unat (c + 32) = unat c + unat (32 :: 16 word)" by (simp only: unat_add_lem)
  then show ?thesis using True by (simp add: asciiLower_def)
next
  case False
  then show ?thesis by (auto simp add: asciiLower_def)
qed

lemma unat_asciiUpper:
  "unat (asciiUpper c) = (if 97 \<le> unat c \<and> unat c \<le> 122 then unat c - 32 else unat c)"
proof (cases "97 \<le> unat c \<and> unat c \<le> 122")
  case True
  then have "unat (32 :: 16 word) \<le> unat c" by simp
  then have "(32 :: 16 word) \<le> c" by (simp only: word_le_nat_alt)
  then have "unat (c - 32) = unat c - unat (32 :: 16 word)" by (rule unat_sub)
  then show ?thesis using True by (simp add: asciiUpper_def)
next
  case False
  then show ?thesis by (auto simp add: asciiUpper_def)
qed

lemma hexValue_asciiLower:
  "hexValue c \<noteq> None \<Longrightarrow> hexValue (asciiLower c) = hexValue c \<and> isLowerHex (asciiLower c)"
  by (auto simp add: hexValue_def isLowerHex_def unat_asciiLower split: if_splits)

lemma hexValue_asciiUpper: "isLowerHex c \<Longrightarrow> hexValue (asciiUpper c) = hexValue c"
  by (auto simp add: hexValue_def isLowerHex_def unat_asciiUpper)

lemma asciiLower_asciiUpper: "isLowerHex c \<Longrightarrow> asciiLower (asciiUpper c) = c"
  by (rule unsigned_word_eqI [where ?'a = nat])
    (auto simp add: isLowerHex_def unat_asciiLower unat_asciiUpper)

lemma asciiLower_lower: "isLowerHex c \<Longrightarrow> asciiLower c = c"
  by (auto simp add: isLowerHex_def asciiLower_def)

lemma isLowerHex_hexValue: "isLowerHex c \<Longrightarrow> hexValue c \<noteq> None"
  by (auto simp add: isLowerHex_def hexValue_def)

lemma hexDigit_hexValue:
  assumes "isLowerHex c" and "hexValue c = Some d"
  shows "d < 16 \<and> hexDigit d = c"
proof -
  have "d < 16 \<and> unat (hexDigit d) = unat c"
    using assms by (auto simp add: isLowerHex_def hexValue_def unat_hexDigit split: if_splits)
  then show ?thesis by (auto intro: unsigned_word_eqI [where ?'a = nat])
qed

lemma byteHex_parseInt16:
  assumes "isLowerHex c1" and "isLowerHex c2"
  shows "byteHex (parseInt16 c1 c2) = [c1, c2]"
proof -
  from assms obtain h l where h: "hexValue c1 = Some h" and l: "hexValue c2 = Some l"
    using isLowerHex_hexValue by fastforce
  from hexDigit_hexValue [OF assms(1) h] hexDigit_hexValue [OF assms(2) l]
  have d: "h < 16" "hexDigit h = c1" "l < 16" "hexDigit l = c2" by simp_all
  have "unat (of_nat (16 * h + l) :: byte) = 16 * h + l" using d by (intro unat_byte) simp
  moreover have "(16 * h + l) div 16 = h" "(16 * h + l) mod 16 = l" using d by simp_all
  ultimately show ?thesis by (simp add: byteHex_def parseInt16_def h l d del: of_nat_add of_nat_mult)
qed

lemma concat_byteHex_hexToBytes:
  "list_all isLowerHex L \<Longrightarrow> even (length L) \<Longrightarrow> concat (map byteHex (hexToBytes L)) = L"
  by (induction L rule: hexToBytes.induct) (simp_all add: byteHex_parseInt16)

lemma parseInt16_cong:
  "hexValue c1 = hexValue d1 \<Longrightarrow> hexValue c2 = hexValue d2 \<Longrightarrow> parseInt16 c1 c2 = parseInt16 d1 d2"
  unfolding parseInt16_def by (simp only:)

lemma hexToBytes_cong:
  "map hexValue xs = map hexValue ys \<Longrightarrow> hexToBytes xs = hexToBytes ys"
proof (induction xs arbitrary: ys rule: hexToBytes.induct)
  case (1 c1 c2 cs)
  then obtain d1 d2 ds where ys: "ys = d1 # d2 # ds" by (cases ys; cases "tl ys") auto
  with 1 have h: "hexValue c1 = hexValue d1" "hexValue c2 = hexValue d2"
    and t: "map hexValue cs = map hexValue ds"
    by simp_all
  have "parseInt16 c1 c2 = parseInt16 d1 d2" using h by (rule parseInt16_cong)
  moreover have "hexToBytes cs = hexToBytes ds" using t by (rule "1.IH")
  ultimately show ?case by (simp add: ys)
qed auto

lemma length_hexToBytes: "length (hexToBytes xs) = length xs div 2"
  by (induction xs rule: hexToBytes.induct) simp_all

lemma getChecksumAddress_digits:
  "getChecksumAddress address = js ''0x'' @ checksumDigits (map asciiLower (drop 2 address))"
  by (simp add: getChecksumAddress_def checksumDigits_def Let_def)

lemma cased_lower:
  "list_all isLowerHex L \<Longrightarrow> length L \<le> length N \<Longrightarrow>
   map asciiLower (map2 (\<lambda>c n. if (8::nat) \<le> n then asciiUpper c else c) L N) = L"
proof (induction L arbitrary: N)
  case Nil
  then show ?case by simp
next
  case (Cons c L)
  then obtain n N' where "N = n # N'" by (cases N) auto
  with Cons show ?case by (simp add: asciiLower_asciiUpper asciiLower_lower)
qed

lemma cased_hexValue:
  "list_all isLowerHex L \<Longrightarrow> length L \<le> length N \<Longrightarrow>
   map hexValue (map2 (\<lambda>c n. if (8::nat) \<le> n then asciiUpper c else c) L N) = map hexValue L"
proof (induction L arbitrary: N)
  case Nil
  then show ?case by simp
next
  case (Cons c L)
  then obtain n N' where "N = n # N'" by (cases N) auto
  with Cons show ?case by (simp add: hexValue_asciiUpper)
qed

lemma checksumDigits_40:
  "length L = 40 \<Longrightarrow>
   checksumDigits L = map2 (\<lambda>c n. if 8 \<le> n then asciiUpper c else c) L
                        (take 40 (nibbles (keccak256 (map ucast L))))"
  by (simp add: checksumDigits_def)

lemma checksumDigits_lower:
  "list_all isLowerHex L \<Longrightarrow> length L = 40 \<Longrightarrow> map asciiLower (checksumDigits L) = L"
  unfolding checksumDigits_40 by (intro cased_lower) (simp_all add: length_nibbles length_keccak256)

lemma checksumDigits_hexValue:
  "list_all isLowerHex L \<Longrightarrow> length L = 40 \<Longrightarrow> map hexValue (checksumDigits L) = map hexValue L"
  unfolding checksumDigits_40 by (intro cased_hexValue) (simp_all add: length_nibbles length_keccak256)

lemma length_checksumDigits: "length (checksumDigits L) = length L"
  by (simp add: checksumDigits_def length_nibbles length_keccak256)

lemma isHexText_map: "isHexText s = (None \<notin> set (map hexValue s))"
  by (induction s) (auto simp add: isHexText_def)

lemma lower_of_hex:
  "isHexText d \<Longrightarrow> list_all isLowerHex (map asciiLower d) \<and> map hexValue (map asciiLower d) = map hexValue d"
  by (induction d) (simp_all add: isHexText_def hexValue_asciiLower)

lemma map_asciiLower_lower: "list_all isLowerHex L \<Longrightarrow> map asciiLower L = L"
  by (induction L) (simp_all add: asciiLower_lower)

lemma drop_0x: "drop 2 (js ''0x'' @ d) = d" "take 2 (js ''0x'' @ d) = js ''0x''"
  by (simp_all add: js_def)

lemma length_getChecksumAddress: "length (getChecksumAddress (js ''0x'' @ d)) = 2 + length d"
  by (simp add: getChecksumAddress_digits drop_0x length_checksumDigits del: drop_append) (simp add: js_def)

text \<open>The checksum form of 40 hex digits, and what it is made of.\<close>

lemma checksum_form:
  assumes "isHexText d" and "length d = 40"
  defines "L \<equiv> map asciiLower d"
  defines "C \<equiv> getChecksumAddress (js ''0x'' @ d)"
  shows "C = js ''0x'' @ checksumDigits L"
    and "getChecksumAddress C = C"
    and "length (hexToBytes (drop 2 C)) = 20"
    and "getChecksumAddress (hexlify (hexToBytes (drop 2 C))) = C"
    and "getAddress C = Inr C"
    and "length (drop 2 C) = 40"
proof -
  have L: "list_all isLowerHex L" "length L = 40"
    using lower_of_hex [OF assms(1)] assms(2) by (simp_all add: L_def)
  show C: "C = js ''0x'' @ checksumDigits L"
    by (simp add: C_def L_def getChecksumAddress_digits drop_0x del: drop_append)
  show fixpoint: "getChecksumAddress C = C"
    by (simp add: C getChecksumAddress_digits drop_0x checksumDigits_lower [OF L] del: drop_append)
  have digits: "hexToBytes (checksumDigits L) = hexToBytes L"
    by (rule hexToBytes_cong) (rule checksumDigits_hexValue [OF L])
  then have bytes: "hexToBytes (drop 2 C) = hexToBytes L"
    by (simp only: C drop_0x)
  show "length (hexToBytes (drop 2 C)) = 20"
    by (simp add: bytes length_hexToBytes L)
  have "hexlify (hexToBytes L) = js ''0x'' @ L"
    using L by (simp add: hexlify_def concat_byteHex_hexToBytes)
  then have "getChecksumAddress (hexlify (hexToBytes L)) = C"
    by (simp add: getChecksumAddress_digits drop_0x map_asciiLower_lower [OF L(1)] C del: drop_append)
  then show "getChecksumAddress (hexlify (hexToBytes (drop 2 C))) = C"
    by (simp only: bytes)
  have "map hexValue (checksumDigits L) = map hexValue d"
    using checksumDigits_hexValue [OF L] lower_of_hex [OF assms(1)] by (simp add: L_def)
  then have "isHexText (checksumDigits L) = isHexText d"
    by (simp only: isHexText_map)
  then have "isHexText (checksumDigits L)"
    using assms(1) by simp
  then have "length C = 42 \<and> take 2 C = js ''0x'' \<and> isHexText (drop 2 C)"
    by (simp add: C drop_0x length_checksumDigits L(2) del: drop_append take_append) (simp add: js_def)
  then show "getAddress C = Inr C"
    by (simp add: getAddress_def Let_def fixpoint)
  show "length (drop 2 C) = 40"
    by (simp add: C drop_0x length_checksumDigits L(2) del: drop_append)
qed

text \<open>The hex digits of a number, and the bytes of 40 hex digits in one word.\<close>

lemma isHexText_toString16: "isHexText (toString16 n)"
proof (induction n rule: toString16.induct)
  case (1 n)
  show ?case
  proof (cases "n < 16")
    case True
    then show ?thesis by (simp add: toString16.simps [of n] isHexText_def hexValue_hexDigit)
  next
    case False
    then have "isHexText (toString16 (n div 16))" by (rule "1.IH")
    then show ?thesis using False
      by (simp add: toString16.simps [of n] isHexText_def hexValue_hexDigit)
  qed
qed

lemma isHexText_padded: "isHexText (replicate k 0x30 @ toString16 n)"
proof -
  have "hexValue 0x30 \<noteq> None" by (simp add: hexValue_def)
  then have "isHexText (replicate k 0x30)" by (induction k) (simp_all add: isHexText_def)
  then show ?thesis using isHexText_toString16 [of n] by (simp add: isHexText_def)
qed

lemma parseInt16_zero: "parseInt16 0x30 0x30 = 0"
  by (simp add: parseInt16_def hexValue_def)

lemma toBeArray_zeros: "even (length d) \<Longrightarrow> \<exists>k. hexToBytes d = replicate k 0 @ toBeArray d"
proof (induction d rule: hexToBytes.induct)
  case (1 c1 c2 cs)
  show ?case
  proof (cases "c1 = 0x30 \<and> c2 = 0x30")
    case True
    from 1 obtain k where "hexToBytes cs = replicate k 0 @ toBeArray cs" by auto
    moreover have "toBeArray (c1 # c2 # cs) = toBeArray cs"
      using True by (simp add: toBeArray_def)
    ultimately have "hexToBytes (c1 # c2 # cs) = replicate (Suc k) 0 @ toBeArray (c1 # c2 # cs)"
      using True by (simp add: parseInt16_zero)
    then show ?thesis by blast
  next
    case False
    have "toBeArray (c1 # c2 # cs) = hexToBytes (c1 # c2 # cs)"
      using False "1.prems" by (auto simp add: toBeArray_def Let_def)
    then have "hexToBytes (c1 # c2 # cs) = replicate 0 0 @ toBeArray (c1 # c2 # cs)" by simp
    then show ?thesis by blast
  qed
qed (simp_all add: toBeArray_def)

lemma writeValue_digits:
  assumes "length d = 40"
  shows "writeValue d = Inr (replicate 12 0 @ hexToBytes d)"
proof -
  from assms have "even (length d)" by simp
  from toBeArray_zeros [OF this] obtain k where k: "hexToBytes d = replicate k 0 @ toBeArray d" by blast
  from arg_cong [OF k, of length] assms have n: "k + length (toBeArray d) = 20"
    by (simp add: length_hexToBytes)
  then have "32 - length (toBeArray d) mod 32 = 12 + k" by simp
  moreover have "replicate (12 + k) (0 :: byte) = replicate 12 0 @ replicate k 0"
    by (rule replicate_add)
  ultimately have "replicate (32 - length (toBeArray d) mod 32) 0 @ toBeArray d = replicate 12 0 @ hexToBytes d"
    by (simp add: k [symmetric])
  moreover have "\<not> 32 < length (toBeArray d)" "length (toBeArray d) \<noteq> 32" using n by simp_all
  ultimately show ?thesis by (simp add: writeValue_def Let_def)
qed

lemma getAddress_Inr:
  assumes "getAddress v = Inr c" and "length c = 42"
  shows "\<exists>d. isHexText d \<and> length d = 40 \<and> c = getChecksumAddress (js ''0x'' @ d)"
proof -
  consider (plain) "length v = 40 \<and> isHexText v"
    | (prefixed) "\<not> (length v = 40 \<and> isHexText v)"
        "length v = 42 \<and> take 2 v = js ''0x'' \<and> isHexText (drop 2 v)"
    | (other) "\<not> (length v = 40 \<and> isHexText v)"
        "\<not> (length v = 42 \<and> take 2 v = js ''0x'' \<and> isHexText (drop 2 v))"
    by blast
  then show ?thesis
  proof cases
    case plain
    then obtain c1 c2 r where v: "v = c1 # c2 # r" by (cases v; cases "tl v") auto
    with plain have "hexValue c2 \<noteq> None" by (simp add: isHexText_def)
    then have "c2 \<noteq> 120" by (auto simp add: hexValue_def)
    then have "take 2 v \<noteq> js ''0x''" by (simp add: v js_def)
    with assms(1) plain have "c = getChecksumAddress (js ''0x'' @ v)"
      by (auto simp add: getAddress_def Let_def split: if_splits)
    with plain show ?thesis by blast
  next
    case prefixed
    then have b: "length v = 42" "take 2 v = js ''0x''" "isHexText (drop 2 v)" by simp_all
    then have "v = js ''0x'' @ drop 2 v" by (metis append_take_drop_id)
    moreover from assms(1) b have "c = getChecksumAddress v"
      by (auto simp add: getAddress_def Let_def split: if_splits)
    ultimately have "c = getChecksumAddress (js ''0x'' @ drop 2 v)" by simp
    moreover have "length (drop 2 v) = 40" using b(1) by simp
    ultimately show ?thesis using b(3) by blast
  next
    case other
    define r where "r = toString16 (fromBase36 (drop 4 v))"
    define d where "d = replicate (40 - length r) 0x30 @ r"
    from assms(1) other have c: "c = getChecksumAddress (js ''0x'' @ d)"
      by (auto simp add: getAddress_def Let_def r_def d_def split: if_splits)
    with assms(2) have "length d = 40" by (simp add: length_getChecksumAddress)
    moreover have "isHexText d" unfolding d_def r_def by (rule isHexText_padded)
    ultimately show ?thesis using c by blast
  qed
qed

lemma addressRoundTrip_getAddress:
  assumes "isAddressType t" and "getAddress v = Inr c" and "length c = 42"
  shows "addressRoundTrip t v = Inr c"
proof -
  from getAddress_Inr [OF assms(2,3)] obtain d where d: "isHexText d" "length d = 40"
    and c: "c = getChecksumAddress (js ''0x'' @ d)" by blast
  define a where "a = hexToBytes (drop 2 c)"
  have a: "length a = 20" "getChecksumAddress (hexlify a) = c"
    using checksum_form(3,4) [OF d] by (simp_all add: a_def c)
  have "length (drop 2 c) = 40"
    using checksum_form(6) [OF d] by (simp add: c)
  then have "writeValue (drop 2 c) = Inr (replicate 12 0 @ a)"
    unfolding a_def by (rule writeValue_digits)
  then have enc: "encodeData t v = Inr (hexlify (replicate 12 0 @ a))"
    using assms(1,2) by (simp add: encodeData_def isAddressType_def AbiCoder_encode_address_def)
  have "AbiCoder_decode_address (replicate 12 0 @ a) = Inr c"
    using a by (simp add: AbiCoder_decode_address_def)
  then have "decodeValue t (replicate 12 0 @ a) = c"
    using assms(1) by (simp add: decodeValue_address)
  then show ?thesis
    by (simp add: addressRoundTrip_def enc hexToBytes_hexlify)
qed

lemma getAddress_idem: "getAddress v = Inr c \<Longrightarrow> length c = 42 \<Longrightarrow> getAddress c = Inr c"
  using getAddress_Inr [of v c] checksum_form(5) by blast

lemma getAddress_lower_example:
  "getAddress (js ''0x5aaeb6053f3e94c9b9a09f33669435e7ef1beaed'')
     = Inr (getChecksumAddress (js ''0x5aaeb6053f3e94c9b9a09f33669435e7ef1beaed''))"
  by (simp add: getAddress_def Let_def js_def isHexText_def hexValue_def isMixedCase_def)

lemma getAddress_upper_example:
  "getAddress (js ''0x5AAEB6053F3E94C9B9A09F33669435E7EF1BEAED'')
     = Inr (getChecksumAddress (js ''0x5aaeb6053f3e94c9b9a09f33669435e7ef1beaed''))"
proof -
  have "getChecksumAddress (js ''0x5AAEB6053F3E94C9B9A09F33669435E7EF1BEAED'')
      = getChecksumAddress (js ''0x5aaeb6053f3e94c9b9a09f33669435e7ef1beaed'')"
    by (simp add: getChecksumAddress_digits js_def asciiLower_def)
  moreover have "getAddress (js ''0x5AAEB6053F3E94C9B9A09F33669435E7EF1BEAED'')
     = Inr (getChecksumAddress (js ''0x5AAEB6053F3E94C9B9A09F33669435E7EF1BEAED''))"
    by (simp add: getAddress_def Let_def js_def isHexText_def hexValue_def isMixedCase_def)
  ultimately show ?thesis by simp
qed

lemma length_checksum_example:
  "length (getChecksumAddress (js ''0x5aaeb6053f3e94c9b9a09f33669435e7ef1beaed'')) = 42"
proof -
  have "js ''0x5aaeb6053f3e94c9b9a09f33669435e7ef1beaed'' = js ''0x'' @ js ''5aaeb6053f3e94c9b9a09f33669435e7ef1beaed''"
    by (simp add: js_def)
  moreover have "length (js ''5aaeb6053f3e94c9b9a09f33669435e7ef1beaed'') = 40" by (simp add: js_def)
  ultimately show ?thesis by (simp only: length_getChecksumAddress)
qed

section \<open>ICAP text\<close>

text \<open>
  Two ICAP texts worked out: one whose number fits 40 hex digits, and one of 31 digits
  in radix 36 whose number needs 41 hex digits. The second is accepted by \<open>getAddress\<close>,
  but the word that the coder writes for it has a non-zero byte among its 12 leading
  ones, so decoding it raises and the value read back is the hex text of the word.
\<close>

lemma decimal_one: "n < 10 \<Longrightarrow> decimal n = [of_nat (48 + n)]"
  by (simp add: decimal.simps [of n])

lemma decimal_two: "10 \<le> n \<Longrightarrow> n < 100 \<Longrightarrow> decimal n = [of_nat (48 + n div 10), of_nat (48 + n mod 10)]"
  by (simp add: decimal.simps [of n] decimal_one)

lemma ibanReduce_step:
  "15 \<le> length e \<Longrightarrow> ibanReduce e = ibanReduce (decimal (decimalValue (take 15 e) mod 97) @ drop 15 e)"
  by (simp add: ibanReduce.simps [of e])

lemma ibanReduce_stop: "length e < 15 \<Longrightarrow> ibanReduce e = e"
  by (simp add: ibanReduce.simps [of e])

lemma icap_moved:
  "concat (map ibanLookup (drop 4 (map asciiUpper (js ''XE7338O073KYGTWWZN0F2WZ0R8PX5ZPPZS''))
      @ take 2 (map asciiUpper (js ''XE7338O073KYGTWWZN0F2WZ0R8PX5ZPPZS'')) @ js ''00''))
   = js ''38240732034162932323523015232350278253353525253528331400''"
  by (simp add: js_def asciiUpper_def ibanLookup_def decimal_two)

lemma icap_reduce:
  "ibanReduce (js ''38240732034162932323523015232350278253353525253528331400'') = js ''7300''"
  by (simp add: js_def ibanReduce_step ibanReduce_stop decimalValue_def decimal_one decimal_two)

lemma icap_checksum_example: "ibanChecksum (js ''XE7338O073KYGTWWZN0F2WZ0R8PX5ZPPZS'') = js ''73''"
proof -
  have "decimal (98 - decimalValue (js ''7300'') mod 97) = js ''73''"
    by (simp add: js_def decimalValue_def decimal_two)
  then show ?thesis
    unfolding ibanChecksum_def Let_def icap_moved icap_reduce by (simp add: js_def)
qed

lemma toString16_step: "16 \<le> n \<Longrightarrow> toString16 n = toString16 (n div 16) @ [hexDigit (n mod 16)]"
  by (simp add: toString16.simps [of n])

lemma toString16_stop: "n < 16 \<Longrightarrow> toString16 n = [hexDigit n]"
  by (simp add: toString16.simps [of n])

lemma icap_number: "fromBase36 (drop 4 (js ''XE7338O073KYGTWWZN0F2WZ0R8PX5ZPPZS'')) = 4399642387892520450436325814291653801258637016"
  by (simp add: fromBase36_def js_def asciiLower_def)

lemma icap_digits: "toString16 4399642387892520450436325814291653801258637016 = js ''c5496aee77c1ba1f0854206a26dda82a81d6d8''"
  by (simp add: toString16_step toString16_stop hexDigit_def js_def)

lemma getAddress_icap_example:
  "getAddress (js ''XE7338O073KYGTWWZN0F2WZ0R8PX5ZPPZS'')
     = Inr (getChecksumAddress (js ''0x00c5496aee77c1ba1f0854206a26dda82a81d6d8''))"
proof -
  have "isIcap (js ''XE7338O073KYGTWWZN0F2WZ0R8PX5ZPPZS'')"
    by (simp add: isIcap_def isAlnum_def js_def)
  moreover have "length (js ''XE7338O073KYGTWWZN0F2WZ0R8PX5ZPPZS'') = 34" by (simp add: js_def)
  moreover have "take 2 (drop 2 (js ''XE7338O073KYGTWWZN0F2WZ0R8PX5ZPPZS'')) = js ''73''" by (simp add: js_def)
  moreover have "js ''0x'' @ replicate (40 - length (js ''c5496aee77c1ba1f0854206a26dda82a81d6d8'')) 0x30
       @ js ''c5496aee77c1ba1f0854206a26dda82a81d6d8'' = js ''0x00c5496aee77c1ba1f0854206a26dda82a81d6d8''"
    by (simp add: js_def numeral_2_eq_2)
  ultimately show ?thesis
    by (simp add: getAddress_def Let_def icap_checksum_example icap_number icap_digits)
qed

lemma length_icap_example:
  "length (getChecksumAddress (js ''0x00c5496aee77c1ba1f0854206a26dda82a81d6d8'')) = 42"
proof -
  have "js ''0x00c5496aee77c1ba1f0854206a26dda82a81d6d8'' = js ''0x'' @ js ''00c5496aee77c1ba1f0854206a26dda82a81d6d8''"
    by (simp add: js_def)
  moreover have "length (js ''00c5496aee77c1ba1f0854206a26dda82a81d6d8'') = 40" by (simp add: js_def)
  ultimately show ?thesis by (simp only: length_getChecksumAddress)
qed

lemma zip_take_left: "zip (take (length ys) xs) ys = zip xs ys"
  by (induction xs ys rule: list_induct2') simp_all

lemma checksumDigits_hexValue_any:
  assumes "list_all isLowerHex L"
  shows "map hexValue (checksumDigits L) = map hexValue L"
proof -
  define N where "N = take 40 (nibbles (keccak256 (map ucast (take 40 L))))"
  have N: "length N = 40" by (simp add: N_def length_nibbles length_keccak256)
  have "list_all isLowerHex (take 40 L)" using assms by (simp add: list_all_iff) (meson in_set_takeD)
  then have "map hexValue (map2 (\<lambda>c n. if (8::nat) \<le> n then asciiUpper c else c) (take 40 L) N)
      = map hexValue (take 40 L)"
    by (rule cased_hexValue) (simp add: N)
  moreover have "zip (take 40 L) N = zip L N" using zip_take_left [of N L] by (simp add: N)
  ultimately have "map hexValue (map2 (\<lambda>c n. if (8::nat) \<le> n then asciiUpper c else c) L N)
      = map hexValue (take 40 L)" by simp
  then have "map hexValue (checksumDigits L) = map hexValue (take 40 L) @ map hexValue (drop 40 L)"
    by (simp add: checksumDigits_def N_def)
  then show ?thesis by (simp add: map_append [symmetric] del: map_append)
qed

lemma long_icap_moved:
  "concat (map ibanLookup (drop 4 (map asciiUpper (js ''XE54ZZZZZZZZZZZZZZZZZZZZZZZZZZZZZZZ''))
      @ take 2 (map asciiUpper (js ''XE54ZZZZZZZZZZZZZZZZZZZZZZZZZZZZZZZ'')) @ js ''00''))
   = js ''35353535353535353535353535353535353535353535353535353535353535331400''"
  by (simp add: js_def asciiUpper_def ibanLookup_def decimal_two)

lemma long_icap_reduce:
  "ibanReduce (js ''35353535353535353535353535353535353535353535353535353535353535331400'') = js ''820''"
  by (simp add: js_def ibanReduce_step ibanReduce_stop decimalValue_def decimal_one decimal_two)

lemma long_icap_checksum: "ibanChecksum (js ''XE54ZZZZZZZZZZZZZZZZZZZZZZZZZZZZZZZ'') = js ''54''"
proof -
  have "decimal (98 - decimalValue (js ''820'') mod 97) = js ''54''"
    by (simp add: js_def decimalValue_def decimal_two)
  then show ?thesis
    unfolding ibanChecksum_def Let_def long_icap_moved long_icap_reduce by (simp add: js_def)
qed

lemma long_icap_number:
  "fromBase36 (drop 4 (js ''XE54ZZZZZZZZZZZZZZZZZZZZZZZZZZZZZZZ'')) = 1759452407304813269615619081855885739163790606335"
  by (simp add: fromBase36_def js_def asciiLower_def)

lemma long_icap_digits:
  "toString16 1759452407304813269615619081855885739163790606335 = js ''1343093195196b9fcca7c68ce3fffffffffffffff''"
  by (simp add: toString16_step toString16_stop hexDigit_def js_def)

lemma getAddress_long_icap:
  "getAddress (js ''XE54ZZZZZZZZZZZZZZZZZZZZZZZZZZZZZZZ'')
     = Inr (getChecksumAddress (js ''0x1343093195196b9fcca7c68ce3fffffffffffffff''))"
proof -
  have "isIcap (js ''XE54ZZZZZZZZZZZZZZZZZZZZZZZZZZZZZZZ'')"
    by (simp add: isIcap_def isAlnum_def js_def)
  moreover have "length (js ''XE54ZZZZZZZZZZZZZZZZZZZZZZZZZZZZZZZ'') = 35" by (simp add: js_def)
  moreover have "take 2 (drop 2 (js ''XE54ZZZZZZZZZZZZZZZZZZZZZZZZZZZZZZZ'')) = js ''54''" by (simp add: js_def)
  moreover have "js ''0x'' @ replicate (40 - length (js ''1343093195196b9fcca7c68ce3fffffffffffffff'')) 0x30
       @ js ''1343093195196b9fcca7c68ce3fffffffffffffff'' = js ''0x1343093195196b9fcca7c68ce3fffffffffffffff''"
    by (simp add: js_def)
  ultimately show ?thesis
    by (simp add: getAddress_def Let_def long_icap_checksum long_icap_number long_icap_digits)
qed

lemma long_icap_round_trip:
  "addressRoundTrip TYPE_ETH_ADDRESS (js ''XE54ZZZZZZZZZZZZZZZZZZZZZZZZZZZZZZZ'')
     = Inr (js ''0x000000000000000000000001343093195196b9fcca7c68ce3fffffffffffffff'')"
proof -
  define D where "D = js ''1343093195196b9fcca7c68ce3fffffffffffffff''"
  define N where "N = take 40 (nibbles (keccak256 (map ucast (take 40 D))))"
  define bytes :: "byte list" where
    "bytes = [0x01, 0x34, 0x30, 0x93, 0x19, 0x51, 0x96, 0xb9, 0xfc, 0xca, 0x7c, 0x68, 0xce, 0x3f,
              0xff, 0xff, 0xff, 0xff, 0xff, 0xff, 0xff]"
  have D: "list_all isLowerHex D" "length D = 41"
    by (simp_all add: D_def js_def isLowerHex_def)
  have low: "map asciiLower D = D" using D(1) by (rule map_asciiLower_lower)
  have c: "getChecksumAddress (js ''0x1343093195196b9fcca7c68ce3fffffffffffffff'') = js ''0x'' @ checksumDigits D"
  proof -
    have "js ''0x1343093195196b9fcca7c68ce3fffffffffffffff'' = js ''0x'' @ D" by (simp add: D_def js_def)
    then show ?thesis by (simp only: getChecksumAddress_digits drop_0x low)
  qed
  have "length N = 40" by (simp add: N_def length_nibbles length_keccak256)
  then obtain n N' where N: "N = n # N'" by (cases N) auto
  obtain D' where D': "D = 0x31 # D'" by (simp add: D_def js_def)
  have "asciiUpper 0x31 = 0x31" by (simp add: asciiUpper_def)
  then have "\<exists>rest. checksumDigits D = 0x31 # rest"
    unfolding checksumDigits_def N_def [symmetric] by (simp add: N D')
  then obtain rest where rest: "checksumDigits D = 0x31 # rest" by blast
  from arg_cong [OF rest, of length] have "length rest = 40" by (simp add: length_checksumDigits D)
  then have "toBeArray (checksumDigits D) = hexToBytes (0x30 # checksumDigits D)"
    by (simp add: rest toBeArray_def)
  also have "\<dots> = hexToBytes (0x30 # D)"
    by (rule hexToBytes_cong) (simp add: checksumDigits_hexValue_any [OF D(1)])
  also have "\<dots> = bytes"
    by (simp add: D_def js_def bytes_def parseInt16_def hexValue_def)
  finally have "toBeArray (checksumDigits D) = bytes" .
  moreover have "length bytes = 21" by (simp add: bytes_def)
  ultimately have "writeValue (checksumDigits D) = Inr (replicate 11 0 @ bytes)"
    by (simp add: writeValue_def)
  then have enc: "encodeData TYPE_ETH_ADDRESS (js ''XE54ZZZZZZZZZZZZZZZZZZZZZZZZZZZZZZZ'')
      = Inr (hexlify (replicate 11 0 @ bytes))"
    by (simp add: encodeData_def AbiCoder_encode_address_def getAddress_long_icap c drop_0x del: drop_append)
  have zeros: "replicate 11 (0 :: byte) = [0, 0, 0, 0, 0, 0, 0, 0, 0, 0, 0]"
    "replicate 12 (0 :: byte) = [0, 0, 0, 0, 0, 0, 0, 0, 0, 0, 0, 0]"
    by (simp_all add: numeral_eq_Suc)
  have "take 12 (replicate 11 0 @ bytes) \<noteq> replicate 12 0"
    by (simp add: bytes_def zeros)
  then have "AbiCoder_decode_address (replicate 11 0 @ bytes) = Inl ValueExceedsWidth"
    by (simp add: AbiCoder_decode_address_def \<open>length bytes = 21\<close>)
  moreover have "isAddressType TYPE_ETH_ADDRESS" by (simp add: isAddressType_def)
  moreover have "hexlify (replicate 11 0 @ bytes) \<noteq> js ''0x''" by (simp add: hexlify_eq_0x bytes_def)
  ultimately have "decodeValue TYPE_ETH_ADDRESS (replicate 11 0 @ bytes) = hexlify (replicate 11 0 @ bytes)"
    by (simp add: decodeValue_def Let_def hexlify_not_Nil)
  then have "addressRoundTrip TYPE_ETH_ADDRESS (js ''XE54ZZZZZZZZZZZZZZZZZZZZZZZZZZZZZZZ'')
      = Inr (hexlify (replicate 11 0 @ bytes))"
    by (simp add: addressRoundTrip_def enc hexToBytes_hexlify)
  moreover have "hexlify (replicate 11 0 @ bytes)
      = js ''0x000000000000000000000001343093195196b9fcca7c68ce3fffffffffffffff''"
    by (simp add: hexlify_def byteHex_def hexDigit_def bytes_def js_def zeros)
  ultimately show ?thesis by (simp only:)
qed

section \<open>Claims\<close>

subsection \<open>C1\<close>

text \<open>
  C1. An event with empty data that is the last one for its key leaves an entry for
  that key in \<open>recordMap\<close>: the entry holds the record type and the label of the event,
  the data \<open>0x\<close> and the empty decoded value. The key is present, not absent. An event
  for the same key that comes still later, and is the last one for the key, replaces
  the entry by its own.
\<close>

theorem tombstone_keeps_key:
  assumes "data e = []" and "\<not> list_ex (writesKey (eventKey e)) later"
  shows "map_of (recordMap (earlier @ EventLog e # later)) (eventKey e)
           = Some \<lparr> rd_recordType = recordType e, rd_label = decodeLabel (label e),
                    rd_data = js ''0x'', rd_decodedValue = [] \<rparr>
         \<and> (eventKey e2 = eventKey e \<and> \<not> list_ex (writesKey (eventKey e)) rest \<longrightarrow>
              map_of (recordMap (earlier @ EventLog e # later @ EventLog e2 # rest)) (eventKey e)
                = Some (eventRecord e2))"
proof -
  have "eventRecord e = \<lparr> rd_recordType = recordType e, rd_label = decodeLabel (label e),
                    rd_data = js ''0x'', rd_decodedValue = [] \<rparr>"
    using assms(1) by (simp add: eventRecord_def hexlify_Nil decodeValue_empty)
  moreover have "map_of (recordMap (earlier @ EventLog e # later @ EventLog e2 # rest)) (eventKey e)
                = Some (eventRecord e2)"
    if "eventKey e2 = eventKey e" "\<not> list_ex (writesKey (eventKey e)) rest"
    using recordMap_last_write [of e2 rest "earlier @ EventLog e # later"] that by simp
  ultimately show ?thesis using recordMap_last_write [OF assms(2), of earlier] by simp
qed

text \<open>
  The sequence \<open>a\<close>, then empty data, for the text record with no label; and the same
  followed by \<open>b\<close>.
\<close>

theorem tombstone_keeps_key_witness:
  "map_of (recordMap [EventLog \<lparr> name = [], label = replicate 32 0, recordType = 16, data = [0x61] \<rparr>,
                      EventLog \<lparr> name = [], label = replicate 32 0, recordType = 16, data = [] \<rparr>])
     (recordKey 16 [])
     = Some \<lparr> rd_recordType = 16, rd_label = [], rd_data = js ''0x'', rd_decodedValue = [] \<rparr>
   \<and> map_of (recordMap [EventLog \<lparr> name = [], label = replicate 32 0, recordType = 16, data = [0x61] \<rparr>,
                      EventLog \<lparr> name = [], label = replicate 32 0, recordType = 16, data = [] \<rparr>,
                      EventLog \<lparr> name = [], label = replicate 32 0, recordType = 16, data = [0x62] \<rparr>])
     (recordKey 16 [])
     = Some \<lparr> rd_recordType = 16, rd_label = [], rd_data = js ''0x62'', rd_decodedValue = js ''b'' \<rparr>"
proof -
  have l: "decodeLabel (replicate 32 0) = []"
    by (simp add: decodeLabel_bytes TextDecoder_decode_zeros removeNuls_zeros)
  have v: "decodeValue 16 [0x62] = js ''b''"
    by (simp add: decodeValue_text isAddressType_def TYPE_ETH_ADDRESS_def TYPE_BTC_ADDRESS_def
        TYPE_SOL_ADDRESS_def TextDecoder_decode_def utf8_decode_ascii utf8_decode_Nil dropBOM_def
        codeUnits_def js_def)
  have h: "hexlify [0x62] = js ''0x62''"
    by (simp add: hexlify_def byteHex_def hexDigit_def js_def)
  show ?thesis
    using tombstone_keeps_key [of "\<lparr> name = [], label = replicate 32 0, recordType = 16, data = [] \<rparr>" "[]"
      "[EventLog \<lparr> name = [], label = replicate 32 0, recordType = 16, data = [0x61] \<rparr>]"
      "\<lparr> name = [], label = replicate 32 0, recordType = 16, data = [0x62] \<rparr>" "[]"]
    by (simp add: eventKey_def eventRecord_def l v h)
qed

subsection \<open>C2\<close>

text \<open>
  C2, as the code has it. \<open>updateRecord\<close> with an empty value stops at its first line,
  \<^verbatim>\<open>if (!domainName || !value || !walletClient) return;\<close>
  It returns without raising and without showing an error, whatever the name, the
  record type, the label and the state of the page are, and the ledger has received no
  call of \<open>setRecord\<close> beyond those it had before.
\<close>

theorem updateRecord_empty_value:
  "updateRecord pg t l [] calls = (Returned, calls)"
  by (simp add: updateRecord_def split: option.splits)

text \<open>
  C2 as the specification words it asks for a failure (\<open>InvalidValueError\<close>). On a page
  with a name, a wallet and a resolver, an empty value does not end in a failure: the
  call just returns.
\<close>

theorem updateRecord_empty_value_no_failure:
  "\<not> is_Failed (fst (updateRecord
      \<lparr> domainName = Some (js ''alice''), walletClient = True, resolverReady = True,
        ledgerAccepts = (\<lambda>c. True) \<rparr> TYPE_TXT (js ''blog'') [] []))"
  by (simp add: updateRecord_def)

subsection \<open>C3\<close>

text \<open>
  C3, as the code has it. A string that is well formed, holds no NUL character and does
  not begin with the byte order mark U+FEFF, and whose UTF-8 form is at most 32 bytes
  long, comes back exactly: encoded into the zero-padded 32-byte key and decoded as
  \<open>loadMyDomains\<close> decodes a name, it is the string itself.
\<close>

theorem key_roundtrip:
  assumes "toUtf8Bytes s = Some bs" and "length bs \<le> 32"
    and "isWellFormed s" and "0 \<notin> set s" and "s = [] \<or> hd s \<noteq> 0xFEFF"
  shows "map_option decodeName (toBytes32 s) = Some s"
  using assms
  by (simp add: toBytes32_def bytes32_short decodeName_bytes TextDecoder_toUtf8Bytes removeNuls_padded)

text \<open>The round trip of the name \<open>alice\<close>.\<close>

theorem key_roundtrip_witness:
  "map_option decodeName (toBytes32 (js ''alice'')) = Some (js ''alice'')"
  using key_roundtrip [of "js ''alice''" "[0x61, 0x6c, 0x69, 0x63, 0x65]"]
  by (simp add: js_def)

text \<open>
  C3 as the specification words it covers every string of at most 32 bytes. The string
  \<open>a\0b\<close> has three bytes and comes back as \<open>ab\<close>: the NUL character is removed together
  with the padding.
\<close>

theorem key_roundtrip_nul:
  "map_option decodeName (toBytes32 [0x61, 0, 0x62]) = Some [0x61, 0x62]
   \<and> map_option decodeName (toBytes32 [0x61, 0, 0x62]) \<noteq> Some [0x61, 0, 0x62]"
  by (simp add: toBytes32_def bytes32_def decodeName_bytes TextDecoder_decode_def
      utf8_decode_ascii utf8_decode_replicate dropBOM_def codeUnits_def codeUnits_zeros removeNuls_def)

subsection \<open>C4\<close>

text \<open>
  C4. Of two events for the same key, the later one gives the entry: when \<open>e2\<close> comes
  after \<open>e1\<close> and no event after \<open>e2\<close> is for that key, the entry of the key is that of
  \<open>e2\<close>, with the data of \<open>e2\<close> and the value decoded from it; nothing of \<open>e1\<close> is left.
  For a type that is no address type and data that are the UTF-8 bytes of a text \<open>b\<close>
  (well formed, not starting with a byte order mark), the value is \<open>b\<close>.
\<close>

theorem last_writer_wins:
  assumes "eventKey e2 = eventKey e1" and "\<not> list_ex (writesKey (eventKey e1)) later"
  shows "map_of (recordMap (earlier @ EventLog e1 # between @ EventLog e2 # later)) (eventKey e1)
           = Some (eventRecord e2)
         \<and> rd_data (eventRecord e2) = hexlify (data e2)
         \<and> rd_decodedValue (eventRecord e2) = decodeValue (recordType e2) (data e2)
         \<and> (\<not> isAddressType (recordType e2) \<and> toUtf8Bytes b = Some (data e2) \<and> isWellFormed b
              \<and> (b = [] \<or> hd b \<noteq> 0xFEFF) \<longrightarrow> rd_decodedValue (eventRecord e2) = b)"
proof -
  have "map_of (recordMap ((earlier @ EventLog e1 # between) @ EventLog e2 # later)) (eventKey e2)
           = Some (eventRecord e2)"
    using assms by (intro recordMap_last_write) simp
  then show ?thesis
    using assms(1) by (auto simp add: eventRecord_def decodeValue_text TextDecoder_text)
qed

text \<open>The events \<open>a\<close> then \<open>b\<close> for the text record with no label give \<open>b\<close>.\<close>

theorem last_writer_wins_witness:
  "map_of (recordMap [EventLog \<lparr> name = [], label = replicate 32 0, recordType = 16, data = [0x61] \<rparr>,
                      EventLog \<lparr> name = [], label = replicate 32 0, recordType = 16, data = [0x62] \<rparr>])
     (recordKey 16 [])
     = Some \<lparr> rd_recordType = 16, rd_label = [], rd_data = js ''0x62'', rd_decodedValue = js ''b'' \<rparr>"
proof -
  have l: "decodeLabel (replicate 32 0) = []"
    by (simp add: decodeLabel_bytes TextDecoder_decode_zeros removeNuls_zeros)
  have h: "hexlify [0x62] = js ''0x62''"
    by (simp add: hexlify_def byteHex_def hexDigit_def js_def)
  have t: "\<not> isAddressType 16"
    by (simp add: isAddressType_def TYPE_ETH_ADDRESS_def TYPE_BTC_ADDRESS_def TYPE_SOL_ADDRESS_def)
  have b: "toUtf8Bytes (js ''b'') = Some [0x62]" "isWellFormed (js ''b'')" "hd (js ''b'') \<noteq> 0xFEFF"
    by (simp_all add: js_def)
  show ?thesis
    using last_writer_wins [of "\<lparr> name = [], label = replicate 32 0, recordType = 16, data = [0x62] \<rparr>"
      "\<lparr> name = [], label = replicate 32 0, recordType = 16, data = [0x61] \<rparr>" "[]" "[]" "[]" "js ''b''"]
      t b
    by (simp add: eventKey_def eventRecord_def l h)
qed

subsection \<open>C5\<close>

text \<open>
  C5, as the code has it. For an address type (ETH, BTC, SOL) and a value that
  \<open>getAddress\<close> accepts and makes an address of 40 hex digits of (40 hex digits with or
  without \<open>0x\<close>, or ICAP text whose number fits 40 hex digits), encoding the value as
  \<open>updateRecord\<close> does and decoding the bytes as \<open>loadResolverData\<close> does gives the
  checksum form \<open>c\<close> of the address. The checksum form is accepted as it is and comes
  back exactly. The address that \<open>getAddress\<close> makes of an ICAP text whose number needs
  41 hex digits does not come back (\<open>long_icap_round_trip\<close>).
\<close>

theorem address_round_trip:
  assumes "isAddressType t" and "getAddress v = Inr c" and "length c = 42"
  shows "addressRoundTrip t v = Inr c \<and> getAddress c = Inr c \<and> addressRoundTrip t c = Inr c"
  using assms getAddress_idem [of v c] by (simp add: addressRoundTrip_getAddress)

text \<open>
  An address written in lower case comes back in its checksum form, and the checksum
  form comes back as it is. An ICAP text comes back as the checksum form of its
  address.
\<close>

theorem address_round_trip_witness:
  "addressRoundTrip TYPE_ETH_ADDRESS (js ''0x5aaeb6053f3e94c9b9a09f33669435e7ef1beaed'')
     = Inr (getChecksumAddress (js ''0x5aaeb6053f3e94c9b9a09f33669435e7ef1beaed''))
   \<and> addressRoundTrip TYPE_ETH_ADDRESS (getChecksumAddress (js ''0x5aaeb6053f3e94c9b9a09f33669435e7ef1beaed''))
     = Inr (getChecksumAddress (js ''0x5aaeb6053f3e94c9b9a09f33669435e7ef1beaed''))
   \<and> addressRoundTrip TYPE_ETH_ADDRESS (js ''XE7338O073KYGTWWZN0F2WZ0R8PX5ZPPZS'')
     = Inr (getChecksumAddress (js ''0x00c5496aee77c1ba1f0854206a26dda82a81d6d8''))"
proof -
  have t: "isAddressType TYPE_ETH_ADDRESS" by (simp add: isAddressType_def)
  from address_round_trip [OF t getAddress_lower_example length_checksum_example]
    address_round_trip [OF t getAddress_icap_example length_icap_example]
  show ?thesis by blast
qed

text \<open>
  C5 as the specification words it has every valid form of an address come back
  exactly. The same 20 bytes written in lower case and in upper case are both accepted
  and are encoded to the same bytes, which decode to one text; so the two spellings do
  not both come back as they were written.
\<close>

theorem address_round_trip_changes_case:
  "\<not> (addressRoundTrip TYPE_ETH_ADDRESS (js ''0x5aaeb6053f3e94c9b9a09f33669435e7ef1beaed'')
        = Inr (js ''0x5aaeb6053f3e94c9b9a09f33669435e7ef1beaed'')
      \<and> addressRoundTrip TYPE_ETH_ADDRESS (js ''0x5AAEB6053F3E94C9B9A09F33669435E7EF1BEAED'')
        = Inr (js ''0x5AAEB6053F3E94C9B9A09F33669435E7EF1BEAED''))"
proof -
  have t: "isAddressType TYPE_ETH_ADDRESS" by (simp add: isAddressType_def)
  have d: "js ''0x5aaeb6053f3e94c9b9a09f33669435e7ef1beaed'' \<noteq> js ''0x5AAEB6053F3E94C9B9A09F33669435E7EF1BEAED''"
    by (simp add: js_def)
  have "addressRoundTrip TYPE_ETH_ADDRESS (js ''0x5aaeb6053f3e94c9b9a09f33669435e7ef1beaed'')
      = addressRoundTrip TYPE_ETH_ADDRESS (js ''0x5AAEB6053F3E94C9B9A09F33669435E7EF1BEAED'')"
    by (simp only: addressRoundTrip_getAddress [OF t getAddress_lower_example length_checksum_example]
        addressRoundTrip_getAddress [OF t getAddress_upper_example length_checksum_example])
  then show ?thesis using d by (metis sum.inject(2))
qed

subsection \<open>C6\<close>

text \<open>
  C6, as the code has it. Take an event whose data are no encoding of an address, being
  shorter than one 32-byte word or having a non-zero byte among the 12 leading ones.
  If its record type is one of the three address types (ETH, BTC, SOL: \<open>0xFF00\<close> to
  \<open>0xFF02\<close>), the coder raises, the failure is caught, and the decoded value is the hex
  text of the data as they are (the empty text when there are no data bytes at all,
  the coder not being called then). For every other record type, the tags \<open>0xFF03\<close> to
  \<open>0xFF3F\<close> of the address band among them, the coder is not called and the decoded
  value is what the text decoder makes of the data bytes. In both cases the loop goes
  on: an event that follows and is the last one for its key has its entry in the
  result.
\<close>

theorem malformed_address_falls_back:
  assumes "length (data e) < 32 \<or> take 12 (data e) \<noteq> replicate 12 0"
  shows "isl (AbiCoder_decode_address (data e))
         \<and> (isAddressType (recordType e) \<longrightarrow>
              rd_decodedValue (eventRecord e) = (if data e = [] then [] else hexlify (data e)))
         \<and> (\<not> isAddressType (recordType e) \<longrightarrow>
              rd_decodedValue (eventRecord e) = TextDecoder_decode (data e))
         \<and> (\<not> list_ex (writesKey (eventKey e')) rest \<longrightarrow>
              map_of (recordMap (earlier @ EventLog e # later @ EventLog e' # rest)) (eventKey e')
                = Some (eventRecord e'))"
proof -
  have f: "isl (AbiCoder_decode_address (data e))"
    using assms by (auto simp add: AbiCoder_decode_address_def)
  then have "rd_decodedValue (eventRecord e) = (if data e = [] then [] else hexlify (data e))"
    if "isAddressType (recordType e)"
    using that
    by (auto simp add: eventRecord_def decodeValue_empty decodeValue_address isl_def)
  moreover have "rd_decodedValue (eventRecord e) = TextDecoder_decode (data e)"
    if "\<not> isAddressType (recordType e)"
    using that by (simp add: eventRecord_def decodeValue_text)
  moreover have "map_of (recordMap ((earlier @ EventLog e # later) @ EventLog e' # rest)) (eventKey e')
                = Some (eventRecord e')" if "\<not> list_ex (writesKey (eventKey e')) rest"
    using that by (rule recordMap_last_write)
  ultimately show ?thesis using f by simp
qed

text \<open>
  The three data bytes 01 02 03 in an ETH address event and in an event of the band tag
  \<open>0xFF03\<close>, each followed by a text event.
\<close>

theorem malformed_address_falls_back_witness:
  "isl (AbiCoder_decode_address [1, 2, 3])
   \<and> rd_decodedValue (eventRecord \<lparr> name = [], label = replicate 32 0, recordType = 0xFF00, data = [1, 2, 3] \<rparr>)
       = js ''0x010203''
   \<and> rd_decodedValue (eventRecord \<lparr> name = [], label = replicate 32 0, recordType = 0xFF03, data = [1, 2, 3] \<rparr>)
       = [1, 2, 3]
   \<and> map_of (recordMap [EventLog \<lparr> name = [], label = replicate 32 0, recordType = 0xFF00, data = [1, 2, 3] \<rparr>,
                        EventLog \<lparr> name = [], label = replicate 32 0, recordType = 16, data = [0x62] \<rparr>])
         (eventKey \<lparr> name = [], label = replicate 32 0, recordType = 16, data = [0x62] \<rparr>)
       = Some (eventRecord \<lparr> name = [], label = replicate 32 0, recordType = 16, data = [0x62] \<rparr>)"
proof -
  have h: "hexlify [1, 2, 3] = js ''0x010203''"
    by (simp add: hexlify_def byteHex_def hexDigit_def js_def)
  have t: "isAddressType 0xFF00"
    by (simp add: isAddressType_def TYPE_ETH_ADDRESS_def)
  have n: "\<not> isAddressType 0xFF03"
    by (simp add: isAddressType_def TYPE_ETH_ADDRESS_def TYPE_BTC_ADDRESS_def TYPE_SOL_ADDRESS_def)
  have d: "TextDecoder_decode [1, 2, 3] = [1, 2, 3]"
    by (simp add: TextDecoder_decode_def utf8_decode_ascii utf8_decode_Nil dropBOM_def codeUnits_def)
  show ?thesis
    using malformed_address_falls_back [of "\<lparr> name = [], label = replicate 32 0, recordType = 0xFF00, data = [1, 2, 3] \<rparr>"
      "\<lparr> name = [], label = replicate 32 0, recordType = 16, data = [0x62] \<rparr>" "[]" "[]" "[]"]
      malformed_address_falls_back [of "\<lparr> name = [], label = replicate 32 0, recordType = 0xFF03, data = [1, 2, 3] \<rparr>"
      "\<lparr> name = [], label = replicate 32 0, recordType = 16, data = [0x62] \<rparr>" "[]" "[]" "[]"] t n
    by (simp add: h d)
qed

text \<open>
  C6 as the specification words it has every event of the address band fall back to
  its raw data. The tag \<open>0xFF03\<close> lies in the band \<open>0xFF00\<close>--\<open>0xFF3F\<close>, and the three
  data bytes 01 02 03 are no encoding of an address; the code does not call the address
  coder for this tag, and the decoded value is the text of the three characters U+0001,
  U+0002, U+0003, not the raw data \<open>0x010203\<close>.
\<close>

theorem band_tag_decodes_as_text:
  "(0xFF00 :: 16 word) \<le> 0xFF03 \<and> (0xFF03 :: 16 word) \<le> 0xFF3F
   \<and> isl (AbiCoder_decode_address [1, 2, 3])
   \<and> rd_data (eventRecord \<lparr> name = [], label = replicate 32 0, recordType = 0xFF03, data = [1, 2, 3] \<rparr>)
       = js ''0x010203''
   \<and> rd_decodedValue (eventRecord \<lparr> name = [], label = replicate 32 0, recordType = 0xFF03, data = [1, 2, 3] \<rparr>)
       = [1, 2, 3]
   \<and> rd_decodedValue (eventRecord \<lparr> name = [], label = replicate 32 0, recordType = 0xFF03, data = [1, 2, 3] \<rparr>)
       \<noteq> rd_data (eventRecord \<lparr> name = [], label = replicate 32 0, recordType = 0xFF03, data = [1, 2, 3] \<rparr>)"
proof -
  have h: "hexlify [1, 2, 3] = js ''0x010203''"
    by (simp add: hexlify_def byteHex_def hexDigit_def js_def)
  have n: "\<not> isAddressType 0xFF03"
    by (simp add: isAddressType_def TYPE_ETH_ADDRESS_def TYPE_BTC_ADDRESS_def TYPE_SOL_ADDRESS_def)
  have d: "TextDecoder_decode [1, 2, 3] = [1, 2, 3]"
    by (simp add: TextDecoder_decode_def utf8_decode_ascii utf8_decode_Nil dropBOM_def codeUnits_def)
  have l: "isl (AbiCoder_decode_address [1, 2, 3])"
    by (simp add: AbiCoder_decode_address_def)
  have "js ''0x010203'' \<noteq> [1, 2, 3]" by (simp add: js_def)
  then show ?thesis
    using n by (simp add: eventRecord_def decodeValue_text h d l)
qed

subsection \<open>C7\<close>

text \<open>
  C7. A record type outside the address band \<open>0xFF00\<close>--\<open>0xFF3F\<close>, whether it is one of the
  constants or a tag of no band at all, is decoded as UTF-8 text: the value is what
  the text decoder makes of the data bytes, the same as for \<open>TYPE_TXT\<close>.
\<close>

theorem other_types_decode_as_text:
  assumes "t < 0xFF00 \<or> 0xFF3F < t"
  shows "decodeValue t bs = TextDecoder_decode bs \<and> decodeValue t bs = decodeValue TYPE_TXT bs"
proof -
  have "\<not> isAddressType t"
    using assms
    by (auto simp add: isAddressType_def TYPE_ETH_ADDRESS_def TYPE_BTC_ADDRESS_def TYPE_SOL_ADDRESS_def)
  moreover have "\<not> isAddressType TYPE_TXT"
    by (simp add: isAddressType_def TYPE_TXT_def TYPE_ETH_ADDRESS_def TYPE_BTC_ADDRESS_def
        TYPE_SOL_ADDRESS_def)
  ultimately show ?thesis by (simp add: decodeValue_text)
qed

text \<open>The tag \<open>0x1234\<close> belongs to no band; its data \<open>hi\<close> decode as text.\<close>

theorem other_types_decode_as_text_witness:
  "decodeValue 0x1234 [0x68, 0x69] = js ''hi''
   \<and> decodeValue 0x1234 [0x68, 0x69] = decodeValue TYPE_TXT [0x68, 0x69]"
proof -
  have d: "TextDecoder_decode [0x68, 0x69] = js ''hi''"
    by (simp add: TextDecoder_decode_def utf8_decode_ascii utf8_decode_Nil dropBOM_def codeUnits_def js_def)
  have p: "(0x1234 :: 16 word) < 0xFF00 \<or> 0xFF3F < (0x1234 :: 16 word)" by simp
  show ?thesis
    unfolding d [symmetric] by (rule other_types_decode_as_text [OF p])
qed

subsection \<open>C8\<close>

text \<open>
  C8, as the code has it. The conversion of a name to its 32-byte key changes no
  letter: two names (well formed, without NUL, not starting with a byte order mark, of
  at most 32 bytes) have the same key only when they are the same string, so a name
  with upper case letters and its lower case form have different keys.
\<close>

theorem key_encoding_keeps_case:
  assumes "toUtf8Bytes s = Some bs" and "length bs \<le> 32"
    and "isWellFormed s" and "0 \<notin> set s" and "s = [] \<or> hd s \<noteq> 0xFEFF"
    and "toUtf8Bytes t = Some bt" and "length bt \<le> 32"
    and "isWellFormed t" and "0 \<notin> set t" and "t = [] \<or> hd t \<noteq> 0xFEFF"
  shows "(toBytes32Hex s = toBytes32Hex t) = (s = t)"
proof -
  have a: "map_option decodeName (toBytes32 s) = Some s"
    using assms(1-5)
    by (simp add: toBytes32_def bytes32_short decodeName_bytes TextDecoder_toUtf8Bytes removeNuls_padded)
  have b: "map_option decodeName (toBytes32 t) = Some t"
    using assms(6-10)
    by (simp add: toBytes32_def bytes32_short decodeName_bytes TextDecoder_toUtf8Bytes removeNuls_padded)
  show ?thesis
  proof
    assume "toBytes32Hex s = toBytes32Hex t"
    then have eq: "toBytes32 s = toBytes32 t" by (simp only: toBytes32Hex_eq)
    have "Some s = map_option decodeName (toBytes32 s)" by (rule a [symmetric])
    also have "\<dots> = map_option decodeName (toBytes32 t)" by (rule arg_cong [OF eq])
    also have "\<dots> = Some t" by (rule b)
    finally show "s = t" by (simp only: option.inject)
  next
    assume "s = t"
    then show "toBytes32Hex s = toBytes32Hex t" by simp
  qed
qed

text \<open>The names \<open>Alice\<close> and \<open>alice\<close>.\<close>

theorem key_encoding_keeps_case_witness:
  "(toBytes32Hex (js ''Alice'') = toBytes32Hex (js ''alice'')) = (js ''Alice'' = js ''alice'')"
  using key_encoding_keeps_case [of "js ''Alice''" "[0x41, 0x6c, 0x69, 0x63, 0x65]" "js ''alice''"
      "[0x61, 0x6c, 0x69, 0x63, 0x65]"]
  by (simp add: js_def)

text \<open>
  C8 as the specification words it has the key of a name equal to the key of its lower
  case form. The keys of \<open>Alice\<close> and \<open>alice\<close> differ.
\<close>

theorem uppercase_name_other_key:
  "toBytes32Hex (js ''Alice'') \<noteq> toBytes32Hex (js ''alice'')"
  by (simp add: toBytes32Hex_eq toBytes32_def bytes32_def js_def)

subsection \<open>C9\<close>

text \<open>
  C9, as the code has it. \<open>updateRecord\<close> passes the all-zero key for a label exactly
  when the label is empty or white space only, or when it can be encoded and its first
  32 characters (all of them, if it has fewer) are NUL. A label with a character that
  is no white space is UTF-8 encoded, cut to 32 bytes and padded with zeros; the
  encoding raises on an unpaired high surrogate.
\<close>

theorem label_zero_key:
  "(labelToHex l = Some zeroHex)
     = (list_all isWhiteSpace l \<or> (toUtf8Bytes l \<noteq> None \<and> set (take 32 l) \<subseteq> {0}))
   \<and> (\<not> list_all isWhiteSpace l \<longrightarrow>
        labelToHex l
          = map_option (\<lambda>bs. hexlify (take 32 bs @ replicate (32 - length (take 32 bs)) 0))
              (toUtf8Bytes l))"
proof (cases "list_all isWhiteSpace l")
  case True
  then show ?thesis by (simp add: labelToHex_def trim_empty)
next
  case False
  then have ne: "l \<noteq> []" by auto
  have eq: "labelToHex l = map_option (\<lambda>bs. hexlify (bytes32 bs)) (toUtf8Bytes l)"
    using False ne
    by (cases "toUtf8Bytes l") (simp_all add: labelToHex_def trim_empty toBytes32Hex_def toBytes32_def)
  have "(labelToHex l = Some zeroHex) = (toUtf8Bytes l \<noteq> None \<and> set (take 32 l) \<subseteq> {0})"
  proof (cases "toUtf8Bytes l")
    case None
    then show ?thesis by (simp add: eq)
  next
    case (Some bs)
    then show ?thesis
      using toUtf8Bytes_leading_zeros [OF Some, of 32]
      by (simp add: eq hexlify_eq_zeroHex bytes32_zero)
  qed
  then show ?thesis using False eq by (simp add: bytes32_def)
qed

text \<open>The label \<open>blog\<close> and a label of two spaces.\<close>

theorem label_zero_key_witness:
  "labelToHex (js ''blog'') \<noteq> Some zeroHex
   \<and> labelToHex (js ''blog'') = Some (hexlify ([0x62, 0x6c, 0x6f, 0x67] @ replicate 28 0))
   \<and> labelToHex (js ''  '') = Some zeroHex"
proof -
  have w: "\<not> list_all isWhiteSpace (js ''blog'')" "list_all isWhiteSpace (js ''  '')"
    by (simp_all add: js_def isWhiteSpace_def)
  have u: "toUtf8Bytes (js ''blog'') = Some [0x62, 0x6c, 0x6f, 0x67]"
    by (simp add: js_def)
  have z: "\<not> set (take 32 (js ''blog'')) \<subseteq> {0}"
    by (simp add: js_def)
  note blog = label_zero_key [of "js ''blog''"] and blank = label_zero_key [of "js ''  ''"]
  from blog w(1) z have a: "labelToHex (js ''blog'') \<noteq> Some zeroHex" by blast
  from blog w(1) have "labelToHex (js ''blog'')
      = map_option (\<lambda>bs. hexlify (take 32 bs @ replicate (32 - length (take 32 bs)) 0))
          (toUtf8Bytes (js ''blog''))"
    by blast
  then have b: "labelToHex (js ''blog'') = Some (hexlify ([0x62, 0x6c, 0x6f, 0x67] @ replicate 28 0))"
    by (simp add: u)
  from blank w(2) have c: "labelToHex (js ''  '') = Some zeroHex" by blast
  from a b c show ?thesis by blast
qed

text \<open>
  C9 as the claim words it has the all-zero key for empty and white space labels only.
  The label of one NUL character is neither, and its key is all zero.
\<close>

theorem nul_label_zero_key:
  "labelToHex [0] = Some zeroHex \<and> [0 :: 16 word] \<noteq> [] \<and> \<not> list_all isWhiteSpace [0]"
proof -
  have r: "(0 :: byte) # replicate 31 0 = replicate 32 0"
    using replicate_Suc [of 31 "0 :: byte"] by simp
  show ?thesis
    by (simp add: labelToHex_def trim_def isWhiteSpace_def toBytes32Hex_def toBytes32_def bytes32_def
        r hexlify_zero)
qed

subsection \<open>C10\<close>

text \<open>
  C10. The key of an entry is made of the record type and the decoded label, and two
  keys are equal exactly when both parts are. The decoded label is the decoded text
  with every NUL removed, wherever it stands. So two events of one record type whose
  labels decode to the same text write the same entry, and the later one (when no event
  for the key follows) is what the entry holds.
\<close>

theorem same_decoded_label_same_entry:
  assumes "recordType e1 = recordType e2" and "decodeLabel (label e1) = decodeLabel (label e2)"
    and "\<not> list_ex (writesKey (eventKey e2)) later"
  shows "eventKey e1 = eventKey e2
         \<and> map_of (recordMap (earlier @ EventLog e1 # between @ EventLog e2 # later)) (eventKey e1)
             = Some (eventRecord e2)
         \<and> decodeLabel (label e1) = removeNuls (TextDecoder_decode (label e1))
         \<and> (eventKey a = eventKey b)
             = (recordType a = recordType b \<and> decodeLabel (label a) = decodeLabel (label b))"
proof -
  have k: "eventKey e1 = eventKey e2" using assms(1,2) by (simp add: eventKey_def)
  have "map_of (recordMap ((earlier @ EventLog e1 # between) @ EventLog e2 # later)) (eventKey e2)
           = Some (eventRecord e2)"
    using assms(3) by (rule recordMap_last_write)
  then have m: "map_of (recordMap (earlier @ EventLog e1 # between @ EventLog e2 # later)) (eventKey e1)
             = Some (eventRecord e2)"
    using k by simp
  show ?thesis
    using k m decodeLabel_bytes [of "label e1"] eventKey_eq [of a b] by blast
qed

text \<open>
  The labels \<open>a\0b\<close> and \<open>ab\<close> differ as 32 bytes, both decode to \<open>ab\<close>, and the event with
  the second overwrites the entry of the first.
\<close>

theorem same_decoded_label_same_entry_witness:
  "bytes32 [0x61, 0, 0x62] \<noteq> bytes32 [0x61, 0x62]
   \<and> decodeLabel (bytes32 [0x61, 0, 0x62]) = js ''ab'' \<and> decodeLabel (bytes32 [0x61, 0x62]) = js ''ab''
   \<and> map_of (recordMap [EventLog \<lparr> name = [], label = bytes32 [0x61, 0, 0x62], recordType = 16, data = [0x31] \<rparr>,
                        EventLog \<lparr> name = [], label = bytes32 [0x61, 0x62], recordType = 16, data = [0x32] \<rparr>])
         (recordKey 16 (js ''ab''))
       = Some (eventRecord \<lparr> name = [], label = bytes32 [0x61, 0x62], recordType = 16, data = [0x32] \<rparr>)"
proof -
  have l1: "decodeLabel (bytes32 [0x61, 0, 0x62]) = js ''ab''"
    by (simp add: bytes32_def decodeLabel_bytes TextDecoder_decode_def utf8_decode_ascii
        utf8_decode_replicate dropBOM_def codeUnits_def codeUnits_zeros removeNuls_def js_def)
  have l2: "decodeLabel (bytes32 [0x61, 0x62]) = js ''ab''"
    by (simp add: bytes32_def decodeLabel_bytes TextDecoder_decode_def utf8_decode_ascii
        utf8_decode_replicate dropBOM_def codeUnits_def codeUnits_zeros removeNuls_def js_def)
  have d: "bytes32 [0x61, 0, 0x62] \<noteq> bytes32 [0x61, 0x62]"
    by (simp add: bytes32_def)
  define E1 where "E1 = \<lparr> name = [], label = bytes32 [0x61, 0, 0x62], recordType = 16, data = [0x31] \<rparr>"
  define E2 where "E2 = \<lparr> name = [], label = bytes32 [0x61, 0x62], recordType = 16, data = [0x32] \<rparr>"
  have "recordType E1 = recordType E2" "decodeLabel (label E1) = decodeLabel (label E2)"
    "\<not> list_ex (writesKey (eventKey E2)) []"
    by (simp_all add: E1_def E2_def l1 l2)
  from same_decoded_label_same_entry [OF this, of "[]" "[]"]
  have "map_of (recordMap ([] @ EventLog E1 # [] @ EventLog E2 # [])) (eventKey E1) = Some (eventRecord E2)"
    by blast
  moreover have "eventKey E1 = recordKey 16 (js ''ab'')"
    by (simp add: eventKey_def E1_def l1)
  ultimately have "map_of (recordMap [EventLog E1, EventLog E2]) (recordKey 16 (js ''ab''))
      = Some (eventRecord E2)"
    by simp
  then show ?thesis using d l1 l2 unfolding E1_def E2_def by blast
qed

end
